theory Spec2Isabelle
  imports Main "HOL-Library.Char_ord"
begin

section \<open>Key decoder (editorReadKey)\<close>

text \<open>
  \<^verbatim>\<open>enum editorKey\<close>: the codes \<^verbatim>\<open>editorReadKey\<close> returns beside plain bytes.
\<close>

definition BACKSPACE :: int where "BACKSPACE = 127"
definition ARROW_LEFT :: int where "ARROW_LEFT = 1000"
definition ARROW_RIGHT :: int where "ARROW_RIGHT = 1001"
definition ARROW_UP :: int where "ARROW_UP = 1002"
definition ARROW_DOWN :: int where "ARROW_DOWN = 1003"
definition DEL_KEY :: int where "DEL_KEY = 1004"
definition HOME_KEY :: int where "HOME_KEY = 1005"
definition END_KEY :: int where "END_KEY = 1006"
definition PAGE_UP :: int where "PAGE_UP = 1007"
definition PAGE_DOWN :: int where "PAGE_DOWN = 1008"

lemmas editorKey_defs = BACKSPACE_def ARROW_LEFT_def ARROW_RIGHT_def ARROW_UP_def
  ARROW_DOWN_def DEL_KEY_def HOME_KEY_def END_KEY_def PAGE_UP_def PAGE_DOWN_def

definition ESC :: char where "ESC = CHR 0x1B"

text \<open>
  One call of \<^verbatim>\<open>read(STDIN_FILENO, &c, 1)\<close> on the raw terminal (VMIN = 0, VTIME = 1)
  returns 1 with a byte, 0 when the tenth of a second passed without one, or -1 with
  \<^verbatim>\<open>errno\<close> set. The input is the list of the results of the reads still to come;
  once it is used up every further read times out.
\<close>

datatype read_result = Byte char | Timeout | ReadError bool
  \<comment> \<open>\<open>ReadError True\<close>: -1 with \<^verbatim>\<open>errno == EAGAIN\<close>\<close>

datatype key_outcome = Key int | Died
  \<comment> \<open>\<open>Died\<close>: \<^verbatim>\<open>die("read")\<close> ended the process\<close>

text \<open>The value of a \<^verbatim>\<open>char\<close> as \<^verbatim>\<open>int\<close>, the type being signed as on x86.\<close>

definition char_int :: "char \<Rightarrow> int" where
  "char_int c = (if (of_char c :: nat) < 128 then of_char c else of_char c - 256)"

text \<open>\<^verbatim>\<open>read(STDIN_FILENO, &seq[k], 1) != 1\<close> is \<open>None\<close>; the result is consumed either way.\<close>

fun read1 :: "read_result list \<Rightarrow> char option \<times> read_result list" where
  "read1 [] = (None, [])"
| "read1 (Byte c # rest) = (Some c, rest)"
| "read1 (Timeout # rest) = (None, rest)"
| "read1 (ReadError e # rest) = (None, rest)"

text \<open>
  The loop \<^verbatim>\<open>while ((nread = read(...)) != 1) { if (nread == -1 && errno != EAGAIN) die("read"); }\<close>.
  On an input that never delivers a byte the loop does not end: \<open>None\<close>.
\<close>

fun wait_byte :: "read_result list \<Rightarrow> (key_outcome + char \<times> read_result list) option" where
  "wait_byte [] = None"
| "wait_byte (Byte c # rest) = Some (Inr (c, rest))"
| "wait_byte (Timeout # rest) = wait_byte rest"
| "wait_byte (ReadError e # rest) = (if e then wait_byte rest else Some (Inl Died))"

text \<open>The body of \<^verbatim>\<open>if (c == '\x1b') { ... }\<close>: the bytes after the escape.\<close>

definition escape_seq :: "read_result list \<Rightarrow> int \<times> read_result list" where
  "escape_seq inp =
     (case read1 inp of
        (None, inp1) \<Rightarrow> (char_int ESC, inp1)
      | (Some seq0, inp1) \<Rightarrow>
     (case read1 inp1 of
        (None, inp2) \<Rightarrow> (char_int ESC, inp2)
      | (Some seq1, inp2) \<Rightarrow>
          if seq0 = CHR ''['' then
            if CHR ''0'' \<le> seq1 \<and> seq1 \<le> CHR ''9'' then
              (case read1 inp2 of
                 (None, inp3) \<Rightarrow> (char_int ESC, inp3)
               | (Some seq2, inp3) \<Rightarrow>
                   if seq2 = CHR ''~'' then
                     if seq1 = CHR ''1'' then (HOME_KEY, inp3)
                     else if seq1 = CHR ''3'' then (DEL_KEY, inp3)
                     else if seq1 = CHR ''4'' then (END_KEY, inp3)
                     else if seq1 = CHR ''5'' then (PAGE_UP, inp3)
                     else if seq1 = CHR ''6'' then (PAGE_DOWN, inp3)
                     else if seq1 = CHR ''7'' then (HOME_KEY, inp3)
                     else if seq1 = CHR ''8'' then (END_KEY, inp3)
                     else (char_int ESC, inp3)
                   else (char_int ESC, inp3))
            else
              if seq1 = CHR ''A'' then (ARROW_UP, inp2)
              else if seq1 = CHR ''B'' then (ARROW_DOWN, inp2)
              else if seq1 = CHR ''C'' then (ARROW_RIGHT, inp2)
              else if seq1 = CHR ''D'' then (ARROW_LEFT, inp2)
              else if seq1 = CHR ''H'' then (HOME_KEY, inp2)
              else if seq1 = CHR ''F'' then (END_KEY, inp2)
              else (char_int ESC, inp2)
          else if seq0 = CHR ''O'' then
            if seq1 = CHR ''H'' then (HOME_KEY, inp2)
            else if seq1 = CHR ''F'' then (END_KEY, inp2)
            else (char_int ESC, inp2)
          else (char_int ESC, inp2)))"

text \<open>
  \<^verbatim>\<open>editorReadKey\<close>, on the pending reads and the static \<^verbatim>\<open>last_input_char\<close>: the outcome,
  the reads left and the new \<^verbatim>\<open>last_input_char\<close>.
\<close>

definition editorReadKey ::
  "read_result list \<Rightarrow> int \<Rightarrow> (key_outcome \<times> read_result list \<times> int) option" where
  "editorReadKey inp last_input_char =
     (case wait_byte inp of
        None \<Rightarrow> None
      | Some (Inl d) \<Rightarrow> Some (d, [], last_input_char)
      | Some (Inr (c, rest)) \<Rightarrow>
          if c = ESC then
            (case escape_seq rest of (k, rest') \<Rightarrow> Some (Key k, rest', last_input_char))
          else if char_int c > 31 \<and> char_int c < 127
            then Some (Key (char_int c), rest, char_int c)
            else Some (Key (char_int c), rest, last_input_char))"

text \<open>The byte the \<open>n\<close>-th coming read delivers, if it delivers one.\<close>

definition nth_read :: "read_result list \<Rightarrow> nat \<Rightarrow> char option" where
  "nth_read inp n = (if n < length inp then (case inp ! n of Byte c \<Rightarrow> Some c | _ \<Rightarrow> None) else None)"


text \<open>
  C9. Once the byte 0x1b has been read the decoder always returns a key and never ends
  the process or waits for ever, whatever the reads after it deliver: the key is the
  plain escape (27) or one of the nine key codes. It is the plain escape whenever a
  follow-up byte is missing (the read times out or fails), the byte after the escape is
  neither \<open>[\<close> nor \<open>O\<close>, a digit is not followed by \<open>~\<close>, the digit is one the
  table does not map (0, 2, 9), or the final letter is not one of the table.
\<close>

theorem editorReadKey_escape_never_fails:
  "\<exists>k rest'. editorReadKey (Byte ESC # inp) lic = Some (Key k, rest', lic)
     \<and> k \<in> {27, ARROW_LEFT, ARROW_RIGHT, ARROW_UP, ARROW_DOWN, DEL_KEY, HOME_KEY, END_KEY,
             PAGE_UP, PAGE_DOWN}
     \<and> (nth_read inp 0 = None \<or> nth_read inp 1 = None \<longrightarrow> k = 27)
     \<and> (\<forall>s0. nth_read inp 0 = Some s0 \<and> s0 \<noteq> CHR ''['' \<and> s0 \<noteq> CHR ''O'' \<longrightarrow> k = 27)
     \<and> (\<forall>s1. nth_read inp 0 = Some CHR ''['' \<and> nth_read inp 1 = Some s1
            \<and> CHR ''0'' \<le> s1 \<and> s1 \<le> CHR ''9'' \<and> nth_read inp 2 \<noteq> Some CHR ''~'' \<longrightarrow> k = 27)
     \<and> (\<forall>s1. nth_read inp 0 = Some CHR ''['' \<and> nth_read inp 1 = Some s1
            \<and> s1 \<in> {CHR ''0'', CHR ''2'', CHR ''9''} \<longrightarrow> k = 27)
     \<and> (\<forall>s1. nth_read inp 0 = Some CHR ''['' \<and> nth_read inp 1 = Some s1
            \<and> \<not> (CHR ''0'' \<le> s1 \<and> s1 \<le> CHR ''9'')
            \<and> s1 \<notin> {CHR ''A'', CHR ''B'', CHR ''C'', CHR ''D'', CHR ''H'', CHR ''F''} \<longrightarrow> k = 27)
     \<and> (\<forall>s1. nth_read inp 0 = Some CHR ''O'' \<and> nth_read inp 1 = Some s1
            \<and> s1 \<notin> {CHR ''H'', CHR ''F''} \<longrightarrow> k = 27)"
proof -
  have esc: "char_int ESC = 27" by (simp add: char_int_def ESC_def)
  note defs = editorReadKey_def escape_seq_def nth_read_def esc less_eq_char_def
  show ?thesis
  proof (cases inp rule: read1.cases)
    case 1 then show ?thesis by (simp add: defs)
  next
    case (2 s0 r1)
    note inp = this
    show ?thesis
    proof (cases r1 rule: read1.cases)
      case 1 with inp show ?thesis by (simp add: defs)
    next
      case (2 s1 r2)
      note r1 = this
      show ?thesis
      proof (cases r2 rule: read1.cases)
        case 1 with r1 inp show ?thesis by (simp add: defs)
      next
        case (2 s2 r3) with r1 inp show ?thesis by (simp add: defs)
      next
        case (3 r3) with r1 inp show ?thesis by (simp add: defs)
      next
        case (4 e r3) with r1 inp show ?thesis by (simp add: defs)
      qed
    next
      case (3 r2) with inp show ?thesis by (simp add: defs)
    next
      case (4 e r2) with inp show ?thesis by (simp add: defs)
    qed
  next
    case (3 r1) then show ?thesis by (simp add: defs)
  next
    case (4 e r1) then show ?thesis by (simp add: defs)
  qed
qed

theorem editorReadKey_escape_never_fails_witness:
  "nth_read [Byte CHR ''['', Byte CHR ''9'', Byte CHR ''~''] 1 = Some CHR ''9''
   \<and> (\<exists>rest'. editorReadKey [Byte ESC, Byte CHR ''['', Byte CHR ''9'', Byte CHR ''~''] 0
                 = Some (Key 27, rest', 0))
   \<and> nth_read [Byte CHR ''['', Byte CHR ''5''] 2 = None
   \<and> (\<exists>rest'. editorReadKey [Byte ESC, Byte CHR ''['', Byte CHR ''5''] 0 = Some (Key 27, rest', 0))"
  using editorReadKey_escape_never_fails [of "[Byte CHR ''['', Byte CHR ''9'', Byte CHR ''~'']" 0]
    editorReadKey_escape_never_fails [of "[Byte CHR ''['', Byte CHR ''5'']" 0]
  by (auto simp: nth_read_def less_eq_char_def)


section \<open>Data model\<close>

text \<open>
  What stops a C function in the model: an access outside an allocated array, or a
  division by zero. A function that can stop so returns \<open>fault + 'a\<close>.
\<close>

datatype fault = OutOfBounds | DivByZero

datatype editorHighlight =
  HL_NORMAL | HL_COMMENT | HL_MLCOMMENT | HL_FUNCTION | HL_KEYWORD1 | HL_KEYWORD2
  | HL_STRING | HL_NUMBER | HL_MATCH

definition HL_HIGHLIGHT_NUMBERS :: int where "HL_HIGHLIGHT_NUMBERS = 1"
definition HL_HIGHLIGHT_STRINGS :: int where "HL_HIGHLIGHT_STRINGS = 2"
definition HL_HIGHLIGHT_FUNCTIONS :: int where "HL_HIGHLIGHT_FUNCTIONS = 4"

text \<open>
  \<^verbatim>\<open>struct editorSyntax\<close>. The three comment markers are C strings; a NULL pointer and the
  empty string both have length 0 for the highlighter and are the empty list here.
\<close>

record editorSyntax =
  filetype :: string
  filematch :: "string list"
  keywords_list :: "string list"
  singleline_comment_start :: string
  multiline_comment_start :: string
  multiline_comment_end :: string
  flags :: int

text \<open>
  \<^verbatim>\<open>struct erow\<close>. \<^verbatim>\<open>chars\<close> holds \<^verbatim>\<open>size\<close> characters and a terminating NUL,
  \<^verbatim>\<open>render\<close> holds \<^verbatim>\<open>rsize\<close> characters and a terminating NUL, \<^verbatim>\<open>hl\<close> holds
  \<^verbatim>\<open>rsize\<close> classes: the lists are the characters without the terminator, and the two
  sizes are their lengths. \<open>render_pre\<close> is the byte that lies in memory just before
  the \<^verbatim>\<open>render\<close> block, which the highlighter reads as \<^verbatim>\<open>render[-1]\<close>.
  \<open>chars_end\<close> is the byte at \<^verbatim>\<open>chars[size]\<close>, the place of the terminator:
  \<^verbatim>\<open>editorInsertRow\<close> and \<^verbatim>\<open>editorRowAppendString\<close> write NUL there,
  \<^verbatim>\<open>editorRowInsertChar\<close> and \<^verbatim>\<open>editorRowDelChar\<close> move the byte with the
  characters, and \<^verbatim>\<open>editorRowInsertChar\<close> at \<open>at = size + 1\<close> writes the new character
  there.
\<close>

record erow =
  idx :: int
  chars :: string
  render :: string
  render_pre :: char
  hl :: "editorHighlight list"
  hl_open_comment :: int
  chars_end :: char

text \<open>
  The fields of \<^verbatim>\<open>struct editorConfig E\<close> that the buffer, the highlighter and the search
  use. \<^verbatim>\<open>tab_stop\<close>, \<^verbatim>\<open>cx\<close>, \<^verbatim>\<open>cy\<close>, \<^verbatim>\<open>rowoff\<close>, \<^verbatim>\<open>numrows\<close> and \<^verbatim>\<open>dirty\<close> are
  \<^verbatim>\<open>unsigned short\<close>: a natural number, cut to 16 bits by \<open>u16\<close> where the code
  assigns or increments it. \<open>row\<close> is the allocated array.
\<close>

record editorConfig =
  tab_stop :: nat
  row :: "erow list"
  syntax_hl :: "editorSyntax option"
  cx :: nat
  cy :: nat
  rowoff :: nat
  numrows :: nat
  dirty :: nat

definition u16 :: "int \<Rightarrow> nat" where
  "u16 x = nat (x mod 65536)"

text \<open>\<^verbatim>\<open>s[j]\<close> in a NUL-terminated array whose characters are \<open>s\<close>, for \<open>j \<le> length s\<close>.\<close>

definition cchar :: "string \<Rightarrow> nat \<Rightarrow> char" where
  "cchar s j = (if j < length s then s ! j else CHR 0x00)"

definition TAB :: char where "TAB = CHR 0x09"

section \<open>Coordinate mapper\<close>

text \<open>
  The loop of \<^verbatim>\<open>editorRowCxToRx\<close>:
  \<^verbatim>\<open>for (j = 0; j < cx; j++) { if (row->chars[j] == '\t') rx += (E.tab_stop - 1) - (rx % E.tab_stop); rx++; }\<close>
  \<open>cs\<close> are the characters and \<open>e\<close> is the byte at \<^verbatim>\<open>chars[size]\<close>. Reading
  \<^verbatim>\<open>chars[j]\<close> behind that byte is out of bounds; \<^verbatim>\<open>rx % 0\<close> traps.
\<close>

function cx_loop :: "nat \<Rightarrow> string \<Rightarrow> char \<Rightarrow> int \<Rightarrow> nat \<Rightarrow> nat \<Rightarrow> fault + nat" where
  "cx_loop ts cs e cx' j rx =
     (if int j < cx' then
        (if length cs < j then Inl OutOfBounds
         else if (if j < length cs then cs ! j else e) = TAB then
           (if ts = 0 then Inl DivByZero
            else cx_loop ts cs e cx' (Suc j) (rx + ((ts - 1) - rx mod ts) + 1))
         else cx_loop ts cs e cx' (Suc j) (rx + 1))
      else Inr rx)"
  by pat_completeness auto
termination
  by (relation "measure (\<lambda>(ts, cs, e, cx', j, rx). nat (cx' - int j))") auto

definition editorRowCxToRx :: "editorConfig \<Rightarrow> erow \<Rightarrow> int \<Rightarrow> fault + nat" where
  "editorRowCxToRx E r cx' = cx_loop (tab_stop E) (chars r) (chars_end r) cx' 0 0"

text \<open>
  The loop of \<^verbatim>\<open>editorRowRxToCx\<close>:
  \<^verbatim>\<open>for (cx = 0; cx < row->size; cx++) { ...; cur_rx++; if (cur_rx > rx) return cx; } return cx;\<close>
\<close>

function rx_loop :: "nat \<Rightarrow> string \<Rightarrow> int \<Rightarrow> nat \<Rightarrow> nat \<Rightarrow> fault + nat" where
  "rx_loop ts cs rx' c cur_rx =
     (if c < length cs then
        (if cs ! c = TAB \<and> ts = 0 then Inl DivByZero
         else
           (let cur = (if cs ! c = TAB then cur_rx + ((ts - 1) - cur_rx mod ts) else cur_rx) + 1
            in if int cur > rx' then Inr c else rx_loop ts cs rx' (Suc c) cur))
      else Inr c)"
  by pat_completeness auto
termination
  by (relation "measure (\<lambda>(ts, cs, rx', c, cur_rx). length cs - c)") auto

definition editorRowRxToCx :: "editorConfig \<Rightarrow> erow \<Rightarrow> int \<Rightarrow> fault + nat" where
  "editorRowRxToCx E r rx' = rx_loop (tab_stop E) (chars r) rx' 0 0"


subsection \<open>The rendered column grows with the raw index\<close>

declare cx_loop.simps [simp del]
declare rx_loop.simps [simp del]

lemma tab_advance:
  "0 < ts \<Longrightarrow> rx + ((ts - 1) - rx mod ts) + 1 = (rx div ts + 1) * (ts::nat)"
proof -
  assume ts: "0 < ts"
  then have "rx mod ts < ts" by simp
  then have "rx + ((ts - 1) - rx mod ts) + 1 = rx - rx mod ts + ts" by simp
  also have "\<dots> = (rx div ts) * ts + ts" by (simp add: minus_mod_eq_div_mult)
  finally show ?thesis by simp
qed

lemma tab_advance_gt: "0 < ts \<Longrightarrow> rx < (rx div ts + 1) * (ts::nat)"
  using tab_advance[of ts rx] by linarith

lemma cx_loop_step:
  assumes "0 < ts" "int j < c" "c \<le> int (length cs)"
  shows "cx_loop ts cs e c j rx =
         cx_loop ts cs e c (Suc j) (if cs ! j = TAB then (rx div ts + 1) * ts else rx + 1)"
proof -
  have j: "j < length cs" using assms by simp
  show ?thesis using assms j tab_advance[OF assms(1), of rx]
    by (subst cx_loop.simps) simp
qed

lemma cx_loop_total:
  assumes "0 < ts" "c \<le> int (length cs)"
  shows "int j \<le> c \<Longrightarrow> \<exists>r. cx_loop ts cs e c j rx = Inr r \<and> rx \<le> r"
proof (induction "nat (c - int j)" arbitrary: j rx)
  case 0
  then show ?case by (simp add: cx_loop.simps)
next
  case (Suc n)
  then have j: "int j < c" by linarith
  let ?rx = "(if cs ! j = TAB then (rx div ts + 1) * ts else rx + 1)"
  have rxle: "rx \<le> ?rx" using tab_advance_gt[OF assms(1), of rx] by simp
  have "n = nat (c - int (Suc j))" using Suc.hyps(2) by simp
  from Suc.hyps(1)[OF this, of ?rx] j
  obtain r where "cx_loop ts cs e c (Suc j) ?rx = Inr r" "?rx \<le> r" by auto
  then show ?case using cx_loop_step[OF assms(1) j assms(2), of e rx] rxle by (metis le_trans)
qed

lemma cx_loop_mono:
  assumes "0 < ts" "c2 \<le> int (length cs)"
  shows "int j \<le> c1 \<Longrightarrow> c1 \<le> c2 \<Longrightarrow>
    \<exists>r1 r2. cx_loop ts cs e c1 j rx = Inr r1 \<and> cx_loop ts cs e c2 j rx = Inr r2 \<and> r1 \<le> r2"
proof (induction "nat (c1 - int j)" arbitrary: j rx)
  case 0
  then have c1: "c1 = int j" by simp
  from cx_loop_total[OF assms, of j e rx] 0
  obtain r2 where "cx_loop ts cs e c2 j rx = Inr r2" "rx \<le> r2" by auto
  then show ?case using c1 by (simp add: cx_loop.simps[of ts cs e "int j" j])
next
  case (Suc n)
  then have j1: "int j < c1" by linarith
  then have j2: "int j < c2" using Suc.prems by simp
  let ?rx = "(if cs ! j = TAB then (rx div ts + 1) * ts else rx + 1)"
  have s2: "cx_loop ts cs e c2 j rx = cx_loop ts cs e c2 (Suc j) ?rx"
    using cx_loop_step[OF assms(1) j2 assms(2)] .
  have s1: "cx_loop ts cs e c1 j rx = cx_loop ts cs e c1 (Suc j) ?rx"
    using cx_loop_step[OF assms(1) j1] Suc.prems assms(2) by simp
  have "n = nat (c1 - int (Suc j))" using Suc.hyps(2) by simp
  from Suc.hyps(1)[OF this, of ?rx] j1 Suc.prems
  show ?case using s1 s2 by simp
qed

lemma cx_loop_snoc:
  assumes "0 < ts" "int j \<le> c" "c < int (length cs)" "cx_loop ts cs e c j rx = Inr r"
  shows "cx_loop ts cs e (c + 1) j rx =
         Inr (if cs ! nat c = TAB then (r div ts + 1) * ts else r + 1)"
  using assms(2,4)
proof (induction "nat (c - int j)" arbitrary: j rx)
  case 0
  then have c: "c = int j" by simp
  have r: "r = rx" using 0(3) c by (simp add: cx_loop.simps[of ts cs e "int j" j])
  have "cx_loop ts cs e (int j + 1) j rx =
        cx_loop ts cs e (int j + 1) (Suc j) (if cs ! j = TAB then (rx div ts + 1) * ts else rx + 1)"
    using cx_loop_step[OF assms(1), of j "int j + 1" cs e rx] assms(3) c by simp
  also have "\<dots> = Inr (if cs ! j = TAB then (rx div ts + 1) * ts else rx + 1)"
    by (simp add: cx_loop.simps[of ts cs e "int j + 1" "Suc j"])
  finally show ?case using c r by simp
next
  case (Suc n)
  then have j: "int j < c" by linarith
  let ?rx = "(if cs ! j = TAB then (rx div ts + 1) * ts else rx + 1)"
  have s1: "cx_loop ts cs e c j rx = cx_loop ts cs e c (Suc j) ?rx"
    using cx_loop_step[OF assms(1) j] assms(3) by simp
  have s2: "cx_loop ts cs e (c + 1) j rx = cx_loop ts cs e (c + 1) (Suc j) ?rx"
    using cx_loop_step[OF assms(1), of j "c + 1" cs e rx] j assms(3) by simp
  have "n = nat (c - int (Suc j))" using Suc.hyps(2) by simp
  from Suc.hyps(1)[OF this, of ?rx] j Suc.prems s1
  show ?case using s2 by simp
qed

text \<open>
  C8. With a positive tab width, for raw indices \<open>0 \<le> cx1 \<le> cx2 \<le> size\<close> of a row,
  \<^verbatim>\<open>editorRowCxToRx\<close> returns at both and the column at \<open>cx1\<close> is at most the column at
  \<open>cx2\<close>. The column at 0 is 0, and one more raw character moves the column to the next
  multiple of the tab width when it is a tab and by 1 otherwise.
\<close>

theorem editorRowCxToRx_monotone:
  assumes "0 < tab_stop E" and "0 \<le> cx1" and "cx1 \<le> cx2" and "cx2 \<le> int (length (chars r))"
  shows "\<exists>r1 r2. editorRowCxToRx E r cx1 = Inr r1 \<and> editorRowCxToRx E r cx2 = Inr r2 \<and> r1 \<le> r2
           \<and> editorRowCxToRx E r 0 = Inr 0
           \<and> (cx1 < int (length (chars r)) \<longrightarrow>
                editorRowCxToRx E r (cx1 + 1) =
                  Inr (if chars r ! nat cx1 = TAB then (r1 div tab_stop E + 1) * tab_stop E
                       else r1 + 1))"
proof -
  from cx_loop_mono[OF assms(1) assms(4), of 0 cx1 "chars_end r" 0] assms
  obtain r1 r2 where r: "cx_loop (tab_stop E) (chars r) (chars_end r) cx1 0 0 = Inr r1"
    "cx_loop (tab_stop E) (chars r) (chars_end r) cx2 0 0 = Inr r2" "r1 \<le> r2"
    by auto
  have z: "cx_loop (tab_stop E) (chars r) (chars_end r) 0 0 0 = Inr 0"
    by (simp add: cx_loop.simps)
  have "cx1 < int (length (chars r)) \<Longrightarrow>
        cx_loop (tab_stop E) (chars r) (chars_end r) (cx1 + 1) 0 0 =
          Inr (if chars r ! nat cx1 = TAB then (r1 div tab_stop E + 1) * tab_stop E else r1 + 1)"
    using cx_loop_snoc[OF assms(1) _ _ r(1)] assms(2) by simp
  with r z show ?thesis by (simp add: editorRowCxToRx_def)
qed

theorem editorRowCxToRx_monotone_witness:
  "editorRowCxToRx \<lparr>tab_stop = 4, row = [], syntax_hl = None, cx = 0, cy = 0, rowoff = 0,
        numrows = 0, dirty = 0\<rparr>
      \<lparr>idx = 0, chars = [CHR ''a'', TAB, CHR ''b''], render = [], render_pre = CHR 0x00,
        hl = [], hl_open_comment = 0, chars_end = CHR 0x00\<rparr> 1 = Inr 1
   \<and> editorRowCxToRx \<lparr>tab_stop = 4, row = [], syntax_hl = None, cx = 0, cy = 0, rowoff = 0,
        numrows = 0, dirty = 0\<rparr>
      \<lparr>idx = 0, chars = [CHR ''a'', TAB, CHR ''b''], render = [], render_pre = CHR 0x00,
        hl = [], hl_open_comment = 0, chars_end = CHR 0x00\<rparr> 2 = Inr 4"
  using editorRowCxToRx_monotone [of
      "\<lparr>tab_stop = 4, row = [], syntax_hl = None, cx = 0, cy = 0, rowoff = 0,
        numrows = 0, dirty = 0\<rparr>"
      1 2
      "\<lparr>idx = 0, chars = [CHR ''a'', TAB, CHR ''b''], render = [], render_pre = CHR 0x00,
        hl = [], hl_open_comment = 0, chars_end = CHR 0x00\<rparr>"]
  by (simp add: editorRowCxToRx_def cx_loop.simps cchar_def TAB_def)

section \<open>Syntax highlighter\<close>

text \<open>The \<^verbatim>\<open>ctype.h\<close> tests in the C locale, and \<^verbatim>\<open>is_separator\<close>.\<close>

definition NUL :: char where "NUL = CHR 0x00"

definition isspace_c :: "char \<Rightarrow> bool" where
  "isspace_c c = (c = CHR '' '' \<or> (CHR 0x09 \<le> c \<and> c \<le> CHR 0x0D))"

definition isdigit_c :: "char \<Rightarrow> bool" where
  "isdigit_c c = (CHR ''0'' \<le> c \<and> c \<le> CHR ''9'')"

definition isalpha_c :: "char \<Rightarrow> bool" where
  "isalpha_c c = ((CHR ''A'' \<le> c \<and> c \<le> CHR ''Z'') \<or> (CHR ''a'' \<le> c \<and> c \<le> CHR ''z''))"

definition is_separator :: "char \<Rightarrow> bool" where
  "is_separator c = (isspace_c c \<or> c = NUL \<or> c \<in> set '',.()+-/*=~%<>[];'')"

text \<open>
  \<^verbatim>\<open>!strncmp(&row->render[i], s, n)\<close> for a C string \<open>s\<close> of at least \<open>n\<close> characters:
  the \<open>n\<close> characters of the row from \<open>i\<close> are those of \<open>s\<close>; where the row ends
  earlier its terminator differs from the character of \<open>s\<close>.
\<close>

definition strncmp_eq :: "string \<Rightarrow> nat \<Rightarrow> string \<Rightarrow> nat \<Rightarrow> bool" where
  "strncmp_eq r i s n = (take n (drop i r) = take n s)"

text \<open>\<^verbatim>\<open>memset(&row->hl[i], v, n)\<close>.\<close>

definition memset_hl ::
  "editorHighlight list \<Rightarrow> nat \<Rightarrow> editorHighlight \<Rightarrow> nat \<Rightarrow> editorHighlight list" where
  "memset_hl h i v n = take i h @ replicate n v @ drop (i + n) h"

text \<open>
  The backward walk of the function-name rule,
  \<^verbatim>\<open>for (int j = i; row->render[j] != ' '; j--) row->hl[j] = HL_FUNCTION;\<close>
  entered at \<open>j = i\<close>. When no space stands at or before \<open>j\<close> the walk leaves the
  row: it reads \<^verbatim>\<open>render[-1]\<close>, and unless that byte is a space it writes \<^verbatim>\<open>hl[-1]\<close>.
\<close>

fun fn_walk :: "string \<Rightarrow> char \<Rightarrow> nat \<Rightarrow> editorHighlight list \<Rightarrow> fault + editorHighlight list" where
  "fn_walk r pre 0 h =
     (if cchar r 0 = CHR '' '' then Inr h
      else if pre = CHR '' '' then Inr (h[0 := HL_FUNCTION])
      else Inl OutOfBounds)"
| "fn_walk r pre (Suc j) h =
     (if cchar r (Suc j) = CHR '' '' then Inr h
      else fn_walk r pre j (h[Suc j := HL_FUNCTION]))"

text \<open>
  The keyword loop: the length (without the marker \<open>|\<close>) and the class of the first
  keyword that matches at \<open>i\<close> and is followed by a separator. (An empty keyword, which
  no table of the source holds, would read \<^verbatim>\<open>keywords[j][-1]\<close>.)
\<close>

fun kw_match :: "string \<Rightarrow> nat \<Rightarrow> string list \<Rightarrow> (nat \<times> bool) option" where
  "kw_match r i [] = None"
| "kw_match r i (k # ks) =
     (let kw2 = (k \<noteq> [] \<and> last k = CHR ''|'');
          klen = (if kw2 then length k - 1 else length k)
      in if strncmp_eq r i k klen \<and> is_separator (cchar r (i + klen)) then Some (klen, kw2)
         else kw_match r i ks)"

text \<open>The variables of the scan loop of \<^verbatim>\<open>editorUpdateSyntax\<close>, and the row's \<^verbatim>\<open>hl\<close>.\<close>

record hl_state =
  pos :: nat
  prev_sep :: bool
  in_string :: char
  in_comment :: bool
  hls :: "editorHighlight list"

text \<open>
  One turn of \<^verbatim>\<open>while (i < row->rsize) { ... }\<close>, block by block. The tests
  \<^verbatim>\<open>E.syntax->flags && HL_HIGHLIGHT_...\<close> use the logical and.

  First the function-name rule, which gives the new \<^verbatim>\<open>hl\<close> or leaves the row.
\<close>

definition hl_fn_rule ::
  "editorSyntax \<Rightarrow> string \<Rightarrow> char \<Rightarrow> hl_state \<Rightarrow> fault + editorHighlight list" where
  "hl_fn_rule syn r pre st =
    (let i = pos st in
     if (flags syn \<noteq> 0 \<and> HL_HIGHLIGHT_FUNCTIONS \<noteq> 0)
        \<and> in_string st = NUL \<and> isalpha_c (cchar r i) \<and> cchar r (i + 1) = CHR ''(''
     then fn_walk r pre i (hls st) else Inr (hls st))"

text \<open>
  Then the single-line comment rule: it fills the rest of the row with
  \<^verbatim>\<open>HL_COMMENT\<close> and the turn goes on to the rules after it.
\<close>

definition hl_scs_rule ::
  "editorSyntax \<Rightarrow> string \<Rightarrow> hl_state \<Rightarrow> editorHighlight list \<Rightarrow> editorHighlight list" where
  "hl_scs_rule syn r st h1 =
    (let i = pos st; scs = singleline_comment_start syn in
     if scs \<noteq> [] \<and> in_string st = NUL \<and> \<not> in_comment st \<and> strncmp_eq r i scs (length scs)
     then memset_hl h1 i HL_COMMENT (length r - i) else h1)"

text \<open>
  \<^verbatim>\<open>char prev_c = row->render[i-1];\<close> reads \<^verbatim>\<open>render[-1]\<close> at \<open>i = 0\<close>, the byte before
  the block. \<^verbatim>\<open>unsigned char prev_hl = (i>0) ? row->hl[i-1] : HL_NORMAL;\<close>
\<close>

definition render_prev :: "string \<Rightarrow> char \<Rightarrow> nat \<Rightarrow> char" where
  "render_prev r pre i = (if i = 0 then pre else cchar r (i - 1))"

definition hl_prev :: "editorHighlight list \<Rightarrow> nat \<Rightarrow> editorHighlight" where
  "hl_prev h i = (if i > 0 then h ! (i - 1) else HL_NORMAL)"

text \<open>
  The rules after it work on the \<^verbatim>\<open>hl\<close> \<open>h2\<close> the first two left. Each is one block
  of the loop body: \<open>Some\<close> is the state at its \<^verbatim>\<open>continue\<close>, \<open>None\<close> means the block
  falls through to the next.

  \<^verbatim>\<open>if (mcs_len && mce_len && !in_string) { if (in_comment) { ... } else if (!strncmp(..., mcs, mcs_len)) { ... } }\<close>
\<close>

definition hl_mlcomment_rule ::
  "editorSyntax \<Rightarrow> string \<Rightarrow> hl_state \<Rightarrow> editorHighlight list \<Rightarrow> hl_state option" where
  "hl_mlcomment_rule syn r st h2 =
    (let i = pos st;
         mcs = multiline_comment_start syn;
         mce = multiline_comment_end syn
     in
     if mcs \<noteq> [] \<and> mce \<noteq> [] \<and> in_string st = NUL then
       (if in_comment st then
          (if strncmp_eq r i mce (length mce) then
             Some (st\<lparr>hls := memset_hl (h2[i := HL_COMMENT]) i HL_MLCOMMENT (length mce),
                      pos := i + length mce, in_comment := False, prev_sep := True\<rparr>)
           else Some (st\<lparr>hls := h2[i := HL_COMMENT], pos := i + 1\<rparr>))
        else if strncmp_eq r i mcs (length mcs) then
          Some (st\<lparr>hls := memset_hl h2 i HL_MLCOMMENT (length mcs),
                   pos := i + length mcs, in_comment := True\<rparr>)
        else None)
     else None)"

text \<open>\<^verbatim>\<open>if (E.syntax->flags && HL_HIGHLIGHT_STRINGS) { if (in_string) { ... } else { if (c == '"' || c == '\'') { ... } } }\<close>\<close>

definition hl_string_rule ::
  "editorSyntax \<Rightarrow> string \<Rightarrow> hl_state \<Rightarrow> editorHighlight list \<Rightarrow> hl_state option" where
  "hl_string_rule syn r st h2 =
    (let i = pos st; c = cchar r i in
     if flags syn \<noteq> 0 \<and> HL_HIGHLIGHT_STRINGS \<noteq> 0 then
       (if in_string st \<noteq> NUL then
          (if c = CHR 0x5C \<and> i + 1 < length r then
             Some (st\<lparr>hls := h2[i := HL_STRING, i + 1 := HL_STRING], pos := i + 2\<rparr>)
           else
             Some (st\<lparr>hls := h2[i := HL_STRING],
                      in_string := (if c = in_string st then NUL else in_string st),
                      pos := i + 1, prev_sep := True\<rparr>))
        else if c = CHR 0x22 \<or> c = CHR 0x27 then
          Some (st\<lparr>in_string := c, hls := h2[i := HL_STRING], pos := i + 1\<rparr>)
        else None)
     else None)"

text \<open>
  \<^verbatim>\<open>if (E.syntax->flags && HL_HIGHLIGHT_NUMBERS) { if ((isdigit(c) && (prev_sep || prev_hl == HL_NUMBER)) || ((c == '.' && prev_hl == HL_NUMBER)) || ((c == 'x' || c == 'b') && prev_c == '0')) { ... } }\<close>
  \<^verbatim>\<open>prev_hl\<close> was read at the top of the turn, from the \<^verbatim>\<open>hl\<close> of the state.
\<close>

definition hl_number_rule ::
  "editorSyntax \<Rightarrow> string \<Rightarrow> char \<Rightarrow> hl_state \<Rightarrow> editorHighlight list \<Rightarrow> hl_state option" where
  "hl_number_rule syn r pre st h2 =
    (let i = pos st;
         c = cchar r i;
         prev_c = render_prev r pre i;
         prev_hl = hl_prev (hls st) i
     in
     if flags syn \<noteq> 0 \<and> HL_HIGHLIGHT_NUMBERS \<noteq> 0 then
       (if (isdigit_c c \<and> (prev_sep st \<or> prev_hl = HL_NUMBER))
           \<or> (c = CHR ''.'' \<and> prev_hl = HL_NUMBER)
           \<or> ((c = CHR ''x'' \<or> c = CHR ''b'') \<and> prev_c = CHR ''0'') then
          Some (st\<lparr>hls := h2[i := HL_NUMBER], pos := i + 1, prev_sep := False\<rparr>)
        else None)
     else None)"

text \<open>\<^verbatim>\<open>if (prev_sep) { for (j=0; keywords[j]; j++) { ... } if (keywords[j] != NULL) { prev_sep = 0; continue; } }\<close>\<close>

definition hl_keyword_rule ::
  "editorSyntax \<Rightarrow> string \<Rightarrow> hl_state \<Rightarrow> editorHighlight list \<Rightarrow> hl_state option" where
  "hl_keyword_rule syn r st h2 =
    (let i = pos st in
     if prev_sep st then
       (case kw_match r i (keywords_list syn) of
          Some (klen, kw2) \<Rightarrow>
            Some (st\<lparr>hls := memset_hl h2 i (if kw2 then HL_KEYWORD2 else HL_KEYWORD1) klen,
                     pos := i + klen, prev_sep := False\<rparr>)
        | None \<Rightarrow> None)
     else None)"

text \<open>The end of the loop body: \<^verbatim>\<open>prev_sep = is_separator(c); i++;\<close>\<close>

definition hl_plain :: "string \<Rightarrow> hl_state \<Rightarrow> editorHighlight list \<Rightarrow> hl_state" where
  "hl_plain r st h2 = st\<lparr>hls := h2, prev_sep := is_separator (cchar r (pos st)), pos := pos st + 1\<rparr>"

definition hl_rules ::
  "editorSyntax \<Rightarrow> string \<Rightarrow> char \<Rightarrow> hl_state \<Rightarrow> editorHighlight list \<Rightarrow> hl_state" where
  "hl_rules syn r pre st h2 =
    (case hl_mlcomment_rule syn r st h2 of Some st' \<Rightarrow> st' | None \<Rightarrow>
     (case hl_string_rule syn r st h2 of Some st' \<Rightarrow> st' | None \<Rightarrow>
      (case hl_number_rule syn r pre st h2 of Some st' \<Rightarrow> st' | None \<Rightarrow>
       (case hl_keyword_rule syn r st h2 of Some st' \<Rightarrow> st' | None \<Rightarrow>
          hl_plain r st h2))))"

text \<open>One turn of the loop.\<close>

definition hl_step :: "editorSyntax \<Rightarrow> string \<Rightarrow> char \<Rightarrow> hl_state \<Rightarrow> fault + hl_state" where
  "hl_step syn r pre st =
     (case hl_fn_rule syn r pre st of
        Inl f \<Rightarrow> Inl f
      | Inr h1 \<Rightarrow> Inr (hl_rules syn r pre st (hl_scs_rule syn r st h1)))"


text \<open>Every turn moves \<open>i\<close> on, or leaves it and clears \<^verbatim>\<open>prev_sep\<close>.\<close>

definition hl_progress :: "hl_state \<Rightarrow> hl_state \<Rightarrow> bool" where
  "hl_progress st st' = (pos st < pos st' \<or> (pos st' = pos st \<and> prev_sep st \<and> \<not> prev_sep st'))"

lemma hl_mlcomment_rule_progress:
  "hl_mlcomment_rule syn r st h2 = Some st' \<Longrightarrow> hl_progress st st'"
  by (auto simp: hl_mlcomment_rule_def hl_progress_def Let_def split: if_splits)

lemma hl_string_rule_progress:
  "hl_string_rule syn r st h2 = Some st' \<Longrightarrow> hl_progress st st'"
  by (auto simp: hl_string_rule_def hl_progress_def Let_def split: if_splits)

lemma hl_number_rule_progress:
  "hl_number_rule syn r pre st h2 = Some st' \<Longrightarrow> hl_progress st st'"
  by (auto simp: hl_number_rule_def hl_progress_def Let_def split: if_splits)

lemma hl_keyword_rule_progress:
  "hl_keyword_rule syn r st h2 = Some st' \<Longrightarrow> hl_progress st st'"
  by (auto simp: hl_keyword_rule_def hl_progress_def Let_def split: if_splits option.splits)

lemma hl_plain_progress: "hl_progress st (hl_plain r st h2)"
  by (simp add: hl_plain_def hl_progress_def)

lemma hl_rules_progress: "hl_progress st (hl_rules syn r pre st h2)"
  unfolding hl_rules_def
  by (auto split: option.split
      intro: hl_mlcomment_rule_progress hl_string_rule_progress hl_number_rule_progress
        hl_keyword_rule_progress hl_plain_progress)

definition hl_measure :: "string \<Rightarrow> hl_state \<Rightarrow> nat" where
  "hl_measure r st = 2 * (length r - pos st) + (if prev_sep st then 1 else 0)"

lemma hl_step_decreases:
  assumes "pos st < length r" and "hl_step syn r pre st = Inr st'"
  shows "hl_measure r st' < hl_measure r st"
proof -
  from assms(2) obtain h1 where "st' = hl_rules syn r pre st (hl_scs_rule syn r st h1)"
    by (auto simp: hl_step_def split: sum.splits)
  then have "hl_progress st st'" by (simp add: hl_rules_progress)
  then have "pos st < pos st' \<or> (pos st' = pos st \<and> prev_sep st \<and> \<not> prev_sep st')"
    by (simp add: hl_progress_def)
  then show ?thesis
  proof
    assume "pos st < pos st'"
    then have "2 * (length r - pos st') + 2 \<le> 2 * (length r - pos st)" using assms(1) by simp
    then show ?thesis by (simp add: hl_measure_def)
  next
    assume "pos st' = pos st \<and> prev_sep st \<and> \<not> prev_sep st'"
    then show ?thesis by (simp add: hl_measure_def)
  qed
qed

text \<open>The loop \<^verbatim>\<open>while (i < row->rsize) { ... }\<close>.\<close>

function hl_loop :: "editorSyntax \<Rightarrow> string \<Rightarrow> char \<Rightarrow> hl_state \<Rightarrow> fault + hl_state" where
  "hl_loop syn r pre st =
     (if pos st < length r then
        (case hl_step syn r pre st of Inl f \<Rightarrow> Inl f | Inr st' \<Rightarrow> hl_loop syn r pre st')
      else Inr st)"
  by pat_completeness auto
termination
  by (relation "measure (\<lambda>(syn, r, pre, st). hl_measure r st)") (auto simp: hl_step_decreases)

declare hl_loop.simps [simp del]

text \<open>The table of the source: \<^verbatim>\<open>C_HL_extensions\<close>, \<^verbatim>\<open>C_HL_keywords\<close> and \<^verbatim>\<open>HLDB[0]\<close>.\<close>

definition C_HL_extensions :: "string list" where
  "C_HL_extensions = [''.c'', ''.h'', ''.cpp'']"

definition C_HL_keywords :: "string list" where
  "C_HL_keywords =
     [''switch'', ''if'', ''while'', ''for'', ''break'', ''continue'', ''return'', ''else'',
      ''default'', ''union'', ''case'', ''#include'', ''#ifndef'', ''#define'', ''#endif'',
      ''#pragma once'', ''namespace'',
      ''struct|'', ''typedef|'', ''enum|'', ''class|'', ''int|'', ''long|'', ''double|'',
      ''float|'', ''char|'', ''unsigned|'', ''signed|'',
      ''void|'', ''static|'', ''using|'', ''std'']"

definition HLDB_c :: editorSyntax where
  "HLDB_c = \<lparr>filetype = ''c'', filematch = C_HL_extensions, keywords_list = C_HL_keywords,
              singleline_comment_start = ''//'', multiline_comment_start = ''/*'',
              multiline_comment_end = ''*/'',
              flags = HL_HIGHLIGHT_NUMBERS + HL_HIGHLIGHT_STRINGS + HL_HIGHLIGHT_FUNCTIONS\<rparr>"

section \<open>Row store\<close>

text \<open>
  The functions of the buffer return \<open>None\<close> when they do not return, \<open>Some (Inl f)\<close>
  when a fault \<open>f\<close> stops them, and \<open>Some (Inr E)\<close> with the new editor state
  otherwise. \<open>then_do\<close> runs the next statement on the state of the one before.
\<close>

definition then_do ::
  "(fault + 'a) option \<Rightarrow> ('a \<Rightarrow> (fault + 'b) option) \<Rightarrow> (fault + 'b) option" where
  "then_do m f = (case m of None \<Rightarrow> None | Some (Inl e) \<Rightarrow> Some (Inl e) | Some (Inr x) \<Rightarrow> f x)"

subsection \<open>editorUpdateSyntax\<close>

text \<open>
  The state of the scan at \<open>i = 0\<close>, after \<^verbatim>\<open>memset(row->hl, HL_NORMAL, row->rsize)\<close>;
  \<open>ic\<close> is the start value of \<^verbatim>\<open>in_comment\<close>.
\<close>

definition hl_init :: "nat \<Rightarrow> bool \<Rightarrow> hl_state" where
  "hl_init n ic = \<lparr>pos = 0, prev_sep = True, in_string = NUL, in_comment = ic,
                    hls = replicate n HL_NORMAL\<rparr>"

text \<open>
  \<^verbatim>\<open>editorUpdateSyntax(erow *row)\<close> for \<^verbatim>\<open>row == &E.row[k]\<close>. The neighbours are found
  through \<^verbatim>\<open>row->idx\<close>: \<^verbatim>\<open>E.row[row->idx-1]\<close> gives the start value of \<^verbatim>\<open>in_comment\<close>, and
  when \<^verbatim>\<open>hl_open_comment\<close> changed and \<^verbatim>\<open>row->idx + 1 < E.numrows\<close> the function calls
  itself on \<^verbatim>\<open>&E.row[row->idx + 1]\<close>. Without a syntax the function returns after the
  \<^verbatim>\<open>memset\<close> and leaves \<^verbatim>\<open>hl_open_comment\<close> as it is.
\<close>

partial_function (option) editorUpdateSyntax ::
  "editorConfig \<Rightarrow> nat \<Rightarrow> (fault + editorConfig) option" where
  "editorUpdateSyntax E k =
    (if length (row E) \<le> k then Some (Inl OutOfBounds)
     else
      (let r = row E ! k in
       case syntax_hl E of
         None \<Rightarrow>
           Some (Inr (E\<lparr>row := (row E)[k := r\<lparr>hl := replicate (length (render r)) HL_NORMAL\<rparr>]\<rparr>))
       | Some syn \<Rightarrow>
          if idx r > 0 \<and> int (length (row E)) \<le> idx r - 1 then Some (Inl OutOfBounds)
          else
           (case hl_loop syn (render r) (render_pre r)
                   (hl_init (length (render r))
                      (idx r > 0 \<and> hl_open_comment (row E ! nat (idx r - 1)) \<noteq> 0)) of
              Inl f \<Rightarrow> Some (Inl f)
            | Inr st \<Rightarrow>
               (let in_comment' = (if in_comment st then 1 else 0);
                    changed = (hl_open_comment r \<noteq> in_comment');
                    E' = E\<lparr>row := (row E)[k := r\<lparr>hl := hls st, hl_open_comment := in_comment'\<rparr>]\<rparr>
                in if changed \<and> idx r + 1 < int (numrows E)
                   then editorUpdateSyntax E' (nat (idx r + 1))
                   else Some (Inr E')))))"

declare editorUpdateSyntax.simps [code]

text \<open>
  The loop of \<^verbatim>\<open>editorSelectSyntaxHighlight\<close> that highlights the whole buffer anew:
  \<^verbatim>\<open>for (filerow = 0; filerow < E.numrows; filerow++) editorUpdateSyntax(&E.row[filerow]);\<close>
\<close>

partial_function (option) highlight_all_from ::
  "editorConfig \<Rightarrow> nat \<Rightarrow> (fault + editorConfig) option" where
  "highlight_all_from E filerow =
     (if filerow < numrows E then
        (case editorUpdateSyntax E filerow of
           None \<Rightarrow> None
         | Some (Inl f) \<Rightarrow> Some (Inl f)
         | Some (Inr E') \<Rightarrow> highlight_all_from E' (Suc filerow))
      else Some (Inr E))"

declare highlight_all_from.simps [code]

subsection \<open>editorUpdateRow\<close>

definition SPACE :: char where "SPACE = CHR 0x20"

text \<open>
  \<^verbatim>\<open>while (idx % E.tab_stop != 0) row->render[idx++] = ' ';\<close> on the rendered characters
  written so far.
\<close>

lemma tab_fill_decreases:
  assumes "ts \<noteq> 0" and "n mod ts \<noteq> 0"
  shows "(ts - Suc n mod ts) mod ts < (ts - n mod ts) mod (ts::nat)"
proof -
  have m: "0 < n mod ts" "n mod ts < ts" using assms by simp_all
  show ?thesis
  proof (cases "Suc (n mod ts) = ts")
    case True
    then have l: "Suc n mod ts = 0" by (simp add: mod_Suc)
    have "ts - n mod ts = 1" using True by arith
    moreover have "1 < ts" using m True by arith
    ultimately have "(ts - n mod ts) mod ts = 1" by simp
    with l show ?thesis by simp
  next
    case False
    then have "Suc n mod ts = Suc (n mod ts)" by (simp add: mod_Suc)
    then show ?thesis using m False by simp
  qed
qed

function tab_fill :: "nat \<Rightarrow> string \<Rightarrow> fault + string" where
  "tab_fill ts rd =
     (if ts = 0 then Inl DivByZero
      else if length rd mod ts \<noteq> 0 then tab_fill ts (rd @ [SPACE])
      else Inr rd)"
  by pat_completeness auto
termination
proof (relation "measure (\<lambda>(ts, rd). (ts - length rd mod ts) mod ts)")
  show "wf (measure (\<lambda>(ts, rd). (ts - length rd mod ts) mod ts))" by simp
next
  fix ts :: nat and rd :: string
  assume "ts \<noteq> 0" and "length rd mod ts \<noteq> 0"
  then show "((ts, rd @ [SPACE]), (ts, rd)) \<in> measure (\<lambda>(ts, rd). (ts - length rd mod ts) mod ts)"
    using tab_fill_decreases[of ts "length rd"] by simp
qed

declare tab_fill.simps [simp del]

text \<open>
  The second loop of \<^verbatim>\<open>editorUpdateRow\<close>, over the characters of the row still to render:
  a tab gives a space and then spaces up to the next tab stop, any other character
  itself.
\<close>

fun render_loop :: "nat \<Rightarrow> string \<Rightarrow> string \<Rightarrow> fault + string" where
  "render_loop ts [] rd = Inr rd"
| "render_loop ts (c # cs) rd =
     (if c = TAB then
        (case tab_fill ts (rd @ [SPACE]) of
           Inl f \<Rightarrow> Inl f
         | Inr rd' \<Rightarrow> render_loop ts cs rd')
      else render_loop ts cs (rd @ [c]))"

text \<open>
  \<^verbatim>\<open>editorUpdateRow(&E.row[k])\<close>. \<open>g\<close> is the byte in front of the block that
  \<^verbatim>\<open>malloc\<close> returns for the new \<^verbatim>\<open>render\<close>.
\<close>

definition editorUpdateRow :: "editorConfig \<Rightarrow> nat \<Rightarrow> char \<Rightarrow> (fault + editorConfig) option" where
  "editorUpdateRow E k g =
     (if length (row E) \<le> k then Some (Inl OutOfBounds)
      else
        (let r = row E ! k in
         case render_loop (tab_stop E) (chars r) [] of
           Inl f \<Rightarrow> Some (Inl f)
         | Inr rd \<Rightarrow>
             editorUpdateSyntax (E\<lparr>row := (row E)[k := r\<lparr>render := rd, render_pre := g\<rparr>]\<rparr>) k))"

subsection \<open>Rows\<close>

text \<open>
  \<^verbatim>\<open>editorInsertRow(at, s, len)\<close>; \<open>s\<close> is the \<open>len\<close> bytes copied. Outside
  \<open>[0, numrows]\<close> the function returns at once. \<^verbatim>\<open>realloc\<close> gives an array of
  \<open>numrows + 1\<close> rows whose new slot holds whatever was in memory, \<open>junk\<close>;
  \<^verbatim>\<open>memmove\<close> copies the rows from \<open>at\<close> one slot up, so slot \<open>at\<close> keeps its old content;
  the function then sets every field of that slot but \<^verbatim>\<open>hl_open_comment\<close>, and the
  terminator of the new \<^verbatim>\<open>chars\<close>.
  \<^verbatim>\<open>editorUpdateRow\<close> runs before \<^verbatim>\<open>E.numrows++\<close>.
\<close>

definition editorInsertRow ::
  "editorConfig \<Rightarrow> int \<Rightarrow> string \<Rightarrow> erow \<Rightarrow> char \<Rightarrow> (fault + editorConfig) option" where
  "editorInsertRow E at s junk g =
     (if at < 0 \<or> at > int (numrows E) then Some (Inr E)
      else
        (let n = numrows E;
             a = nat at;
             arr = take (n + 1) (row E) @ replicate (n + 1 - length (row E)) junk;
             moved = take (a + 1) arr @ drop a (take n arr);
             bumped = take (a + 1) moved @ map (\<lambda>r. r\<lparr>idx := idx r + 1\<rparr>) (drop (a + 1) moved);
             new = (bumped ! a)\<lparr>idx := at, chars := s, chars_end := NUL, render := [], hl := []\<rparr>
         in then_do (editorUpdateRow (E\<lparr>row := bumped[a := new]\<rparr>) a g)
              (\<lambda>E'. Some (Inr (E'\<lparr>numrows := u16 (int n + 1),
                                    dirty := u16 (int (dirty E') + 1)\<rparr>)))))"

text \<open>
  \<^verbatim>\<open>editorDelRow(at)\<close>: nothing happens outside \<open>[0, numrows)\<close>. Inside, the rows behind
  \<open>at\<close> move one slot down and their \<^verbatim>\<open>idx\<close> goes down by 1; no row is highlighted anew.
  The array keeps its size in memory; the model drops the slot behind the last row,
  which \<^verbatim>\<open>editorInsertRow\<close> takes as \<open>junk\<close>.
\<close>

definition editorDelRow :: "editorConfig \<Rightarrow> int \<Rightarrow> editorConfig" where
  "editorDelRow E at =
     (if at < 0 \<or> at \<ge> int (numrows E) then E
      else
        E\<lparr>row := take (nat at) (row E)
                 @ map (\<lambda>r. r\<lparr>idx := idx r - 1\<rparr>) (drop (nat at + 1) (take (numrows E) (row E))),
          numrows := u16 (int (numrows E) - 1),
          dirty := u16 (int (dirty E) + 1)\<rparr>)"

text \<open>
  \<^verbatim>\<open>editorRowInsertChar(&E.row[k], at, c)\<close>. The test is against \<^verbatim>\<open>row->rsize\<close>, and an
  \<open>at\<close> outside \<open>[0, rsize]\<close> becomes \<^verbatim>\<open>rsize\<close>. The block has \<open>size + 2\<close> bytes after
  \<^verbatim>\<open>realloc\<close>, and \<^verbatim>\<open>memmove\<close> moves the \<open>size - at + 1\<close> bytes from \<open>at\<close> on, the
  terminator with them. At \<open>at = size + 1\<close> it moves nothing, the byte at
  \<^verbatim>\<open>chars[size]\<close> becomes the last character of the row and \<open>c\<close> is written behind it.
  At \<open>at > size + 1\<close> the length of the move is negative and \<^verbatim>\<open>chars[at]\<close> lies
  outside the block: the model stops there.
\<close>

definition editorRowInsertChar ::
  "editorConfig \<Rightarrow> nat \<Rightarrow> int \<Rightarrow> char \<Rightarrow> char \<Rightarrow> (fault + editorConfig) option" where
  "editorRowInsertChar E k at c g =
     (if length (row E) \<le> k then Some (Inl OutOfBounds)
      else
        (let r = row E ! k;
             sz = int (length (chars r));
             rsize = int (length (render r));
             at' = (if at < 0 \<or> at > rsize then rsize else at)
         in if at' > sz + 1 then Some (Inl OutOfBounds)
            else
              then_do
                (editorUpdateRow
                   (E\<lparr>row := (row E)[k :=
                        (if at' = sz + 1 then r\<lparr>chars := chars r @ [chars_end r], chars_end := c\<rparr>
                         else r\<lparr>chars := take (nat at') (chars r) @ [c]
                                          @ drop (nat at') (chars r)\<rparr>)]\<rparr>) k g)
                (\<lambda>E'. Some (Inr (E'\<lparr>dirty := u16 (int (dirty E') + 1)\<rparr>)))))"

text \<open>
  \<^verbatim>\<open>editorRowAppendString(&E.row[k], s, len)\<close>: the \<open>len\<close> bytes \<open>s\<close> are written from
  \<^verbatim>\<open>chars[size]\<close> on, over the old terminator, and a NUL behind them.
\<close>

definition editorRowAppendString ::
  "editorConfig \<Rightarrow> nat \<Rightarrow> string \<Rightarrow> char \<Rightarrow> (fault + editorConfig) option" where
  "editorRowAppendString E k s g =
     (if length (row E) \<le> k then Some (Inl OutOfBounds)
      else
        (let r = row E ! k in
         then_do (editorUpdateRow
                    (E\<lparr>row := (row E)[k := r\<lparr>chars := chars r @ s, chars_end := NUL\<rparr>]\<rparr>) k g)
           (\<lambda>E'. Some (Inr (E'\<lparr>dirty := u16 (int (dirty E') + 1)\<rparr>)))))"

text \<open>
  \<^verbatim>\<open>editorRowDelChar(&E.row[k], at)\<close>: nothing happens outside \<open>[0, size)\<close>; inside,
  \<^verbatim>\<open>memmove\<close> moves the characters behind \<open>at\<close> and the terminator one place down.
\<close>

definition editorRowDelChar ::
  "editorConfig \<Rightarrow> nat \<Rightarrow> int \<Rightarrow> char \<Rightarrow> (fault + editorConfig) option" where
  "editorRowDelChar E k at g =
     (if length (row E) \<le> k then Some (Inl OutOfBounds)
      else
        (let r = row E ! k in
         if at < 0 \<or> at \<ge> int (length (chars r)) then Some (Inr E)
         else
           then_do
             (editorUpdateRow
                (E\<lparr>row := (row E)[k := r\<lparr>chars := take (nat at) (chars r)
                                                     @ drop (nat at + 1) (chars r)\<rparr>]\<rparr>) k g)
             (\<lambda>E'. Some (Inr (E'\<lparr>dirty := u16 (int (dirty E') + 1)\<rparr>)))))"

text \<open>
  \<^verbatim>\<open>editorInsertNewLine()\<close>, the Enter key in insert mode. At column 0 an empty row is
  inserted at the cursor row. Otherwise the characters of the cursor row from \<^verbatim>\<open>E.cx\<close> on
  are copied into a new row behind it, the cursor row is cut at \<^verbatim>\<open>E.cx\<close>
  (\<^verbatim>\<open>row->size = E.cx; row->chars[row->size] = '\0';\<close>) and \<^verbatim>\<open>editorUpdateRow\<close> runs on
  it. \<open>g1\<close> and \<open>g2\<close> are the bytes in front of the two new \<^verbatim>\<open>render\<close> blocks. With the
  cursor row outside the array, or \<^verbatim>\<open>E.cx\<close> behind the terminator (a negative length),
  the model stops.
\<close>

definition editorInsertNewLine ::
  "editorConfig \<Rightarrow> erow \<Rightarrow> char \<Rightarrow> char \<Rightarrow> (fault + editorConfig) option" where
  "editorInsertNewLine E junk g1 g2 =
     then_do
       (if cx E = 0 then editorInsertRow E (int (cy E)) [] junk g1
        else if length (row E) \<le> cy E \<or> length (chars (row E ! cy E)) < cx E
        then Some (Inl OutOfBounds)
        else
          then_do
            (editorInsertRow E (int (cy E) + 1) (drop (cx E) (chars (row E ! cy E))) junk g1)
            (\<lambda>E1. if length (row E1) \<le> cy E then Some (Inl OutOfBounds)
                  else editorUpdateRow
                         (E1\<lparr>row := (row E1)[cy E :=
                                (row E1 ! cy E)\<lparr>chars := take (cx E) (chars (row E1 ! cy E)),
                                                 chars_end := NUL\<rparr>]\<rparr>)
                         (cy E) g2))
       (\<lambda>E2. Some (Inr (E2\<lparr>cy := u16 (int (cy E2) + 1), cx := 0\<rparr>)))"

section \<open>File input and output\<close>

definition LF :: char where "LF = CHR 0x0A"
definition CR :: char where "CR = CHR 0x0D"

text \<open>
  \<^verbatim>\<open>editorRowsToString\<close>: the characters of every row, each followed by a newline. The
  length of the result is \<^verbatim>\<open>*buflen\<close>.
\<close>

fun rows_to_string :: "erow list \<Rightarrow> string" where
  "rows_to_string [] = []"
| "rows_to_string (r # rs) = chars r @ [LF] @ rows_to_string rs"

definition editorRowsToString :: "editorConfig \<Rightarrow> fault + string" where
  "editorRowsToString E =
     (if length (row E) < numrows E then Inl OutOfBounds
      else Inr (rows_to_string (take (numrows E) (row E))))"

text \<open>
  \<^verbatim>\<open>getline\<close> of the C library on the bytes of the file still unread: \<open>None\<close> (-1) at
  the end of the file, else the line, with its newline when it has one, and the rest.
\<close>

definition getline :: "string \<Rightarrow> (string \<times> string) option" where
  "getline inp =
     (if inp = [] then None
      else (case dropWhile (\<lambda>c. c \<noteq> LF) inp of
              [] \<Rightarrow> Some (inp, [])
            | c # rest \<Rightarrow> Some (takeWhile (\<lambda>c. c \<noteq> LF) inp @ [c], rest)))"

text \<open>
  \<^verbatim>\<open>while (linelen > 0 && (line[linelen - 1] == '\n' || line[linelen - 1] == '\r')) linelen--;\<close>
\<close>

function strip_eol :: "string \<Rightarrow> string" where
  "strip_eol line =
     (if line \<noteq> [] \<and> (last line = LF \<or> last line = CR) then strip_eol (butlast line)
      else line)"
  by pat_completeness auto
termination
  by (relation "measure length") auto

declare strip_eol.simps [simp del]

lemma getline_shorter: "getline inp = Some (line, rest) \<Longrightarrow> length rest < length inp"
proof -
  assume g: "getline inp = Some (line, rest)"
  then have ne: "inp \<noteq> []" by (auto simp: getline_def split: if_splits)
  with g have g': "(case dropWhile (\<lambda>c. c \<noteq> LF) inp of
                      [] \<Rightarrow> Some (inp, [])
                    | c # rest \<Rightarrow> Some (takeWhile (\<lambda>c. c \<noteq> LF) inp @ [c], rest))
                   = Some (line, rest)"
    by (simp add: getline_def)
  have le: "length (dropWhile (\<lambda>c. c \<noteq> LF) inp) \<le> length inp"
    by (rule length_dropWhile_le)
  show ?thesis
  proof (cases "dropWhile (\<lambda>c. c \<noteq> LF) inp")
    case Nil
    from g' have "rest = []" unfolding Nil by simp
    with ne show ?thesis by simp
  next
    case (Cons c rest')
    from g' have "rest = rest'" unfolding Cons by simp
    with Cons le show ?thesis by simp
  qed
qed

text \<open>
  The loop of \<^verbatim>\<open>editorOpen\<close>:
  \<^verbatim>\<open>while ((linelen = getline(&line, &linecap, fp)) != -1) { ...; editorInsertRow(E.numrows, line, linelen); }\<close>
  \<open>junk n\<close> and \<open>g n\<close> are what memory holds in the new slot of the array and in
  front of the new \<^verbatim>\<open>render\<close> when the buffer has \<open>n\<close> rows.
\<close>

function editorOpen_loop ::
  "editorConfig \<Rightarrow> string \<Rightarrow> (nat \<Rightarrow> erow) \<Rightarrow> (nat \<Rightarrow> char) \<Rightarrow> (fault + editorConfig) option" where
  "editorOpen_loop E inp junk g =
     (case getline inp of
        None \<Rightarrow> Some (Inr E)
      | Some (line, rest) \<Rightarrow>
          (case editorInsertRow E (int (numrows E)) (strip_eol line) (junk (numrows E))
                  (g (numrows E)) of
             None \<Rightarrow> None
           | Some (Inl f) \<Rightarrow> Some (Inl f)
           | Some (Inr E') \<Rightarrow> editorOpen_loop E' rest junk g))"
  by pat_completeness auto
termination
  by (relation "measure (\<lambda>(E, inp, junk, g). length inp)") (auto simp: getline_shorter)

declare editorOpen_loop.simps [simp del]

text \<open>
  \<^verbatim>\<open>editorOpen\<close> from the point where the file is open: \<open>inp\<close> is the content of the
  file, and \<^verbatim>\<open>E.syntax\<close> is what \<^verbatim>\<open>editorSelectSyntaxHighlight\<close> chose for the file name.
\<close>

definition editorOpen ::
  "editorConfig \<Rightarrow> string \<Rightarrow> (nat \<Rightarrow> erow) \<Rightarrow> (nat \<Rightarrow> char) \<Rightarrow> (fault + editorConfig) option" where
  "editorOpen E inp junk g =
     then_do (editorOpen_loop E inp junk g) (\<lambda>E'. Some (Inr (E'\<lparr>dirty := 0\<rparr>)))"

text \<open>The editor state of \<^verbatim>\<open>initEditor\<close>, with the syntax chosen for the file.\<close>

definition initEditor :: "editorSyntax option \<Rightarrow> editorConfig" where
  "initEditor syn = \<lparr>tab_stop = 4, row = [], syntax_hl = syn, cx = 0, cy = 0, rowoff = 0,
                      numrows = 0, dirty = 0\<rparr>"

section \<open>Search\<close>

text \<open>The static variables of \<^verbatim>\<open>editorFindCallback\<close>; \<open>saved_hl = None\<close> is the NULL pointer.\<close>

record find_state =
  last_match :: int
  direction :: int
  saved_hl_line :: nat
  saved_hl :: "editorHighlight list option"

text \<open>
  \<^verbatim>\<open>strstr(haystack, needle)\<close> on the characters of two C strings: the offset of the first
  occurrence. A \<^verbatim>\<open>render\<close> with a NUL inside is a C string up to that NUL.
\<close>

fun strstr :: "string \<Rightarrow> string \<Rightarrow> nat option" where
  "strstr [] needle = (if needle = [] then Some 0 else None)"
| "strstr (h # hs) needle =
     (if take (length needle) (h # hs) = needle then Some 0
      else map_option Suc (strstr hs needle))"

definition cstr :: "string \<Rightarrow> string" where
  "cstr s = takeWhile (\<lambda>c. c \<noteq> NUL) s"

text \<open>
  The loop of \<^verbatim>\<open>editorFindCallback\<close>, entered with the loop counter \<open>i\<close>:
  \<^verbatim>\<open>current += direction; if (current == -1) current = E.numrows - 1; else if (current == E.numrows) current = 0;\<close>
  and then the search in \<^verbatim>\<open>E.row[current]\<close>. The result is the row and the offset of
  the match at which the loop breaks, or \<open>None\<close> when it runs out.
\<close>

function find_loop ::
  "editorConfig \<Rightarrow> string \<Rightarrow> int \<Rightarrow> int \<Rightarrow> nat \<Rightarrow> fault + (int \<times> nat) option" where
  "find_loop E query dir current i =
     (if i < numrows E then
        (let c1 = current + dir;
             c2 = (if c1 = -1 then int (numrows E) - 1
                   else if c1 = int (numrows E) then 0 else c1)
         in if c2 < 0 \<or> int (length (row E)) \<le> c2 then Inl OutOfBounds
            else
              (case strstr (cstr (render (row E ! nat c2))) query of
                 Some off \<Rightarrow> Inr (Some (c2, off))
               | None \<Rightarrow> find_loop E query dir c2 (Suc i)))
      else Inr None)"
  by pat_completeness auto
termination
  by (relation "measure (\<lambda>(E, query, dir, current, i). numrows E - i)") auto

declare find_loop.simps [simp del]

text \<open>
  \<^verbatim>\<open>editorFindCallback(query, key)\<close> on the editor state and the static variables.
\<close>

definition editorFindCallback ::
  "editorConfig \<Rightarrow> find_state \<Rightarrow> string \<Rightarrow> int \<Rightarrow> fault + editorConfig \<times> find_state" where
  "editorFindCallback E fs query key =
     (if saved_hl fs \<noteq> None \<and> length (row E) \<le> saved_hl_line fs then Inl OutOfBounds
      else
       (let E1 = (case saved_hl fs of
                    None \<Rightarrow> E
                  | Some sv \<Rightarrow>
                      E\<lparr>row := (row E)[saved_hl_line fs :=
                             (row E ! saved_hl_line fs)\<lparr>hl := sv\<rparr>]\<rparr>);
            fs1 = fs\<lparr>saved_hl := None\<rparr>
        in
        if key = 13 \<or> key = 27 then Inr (E1, fs1\<lparr>last_match := -1, direction := 1\<rparr>)
        else
         (let fs2 = (if key = ARROW_RIGHT \<or> key = ARROW_DOWN then fs1\<lparr>direction := 1\<rparr>
                     else if key = ARROW_LEFT \<or> key = ARROW_UP then fs1\<lparr>direction := -1\<rparr>
                     else fs1\<lparr>last_match := -1, direction := 1\<rparr>);
              fs3 = (if last_match fs2 = -1 then fs2\<lparr>direction := 1\<rparr> else fs2)
          in
          case find_loop E1 query (direction fs3) (last_match fs3) 0 of
            Inl f \<Rightarrow> Inl f
          | Inr None \<Rightarrow> Inr (E1, fs3)
          | Inr (Some (current, off)) \<Rightarrow>
              (let r = row E1 ! nat current in
               case editorRowRxToCx E1 r (int off) of
                 Inl f \<Rightarrow> Inl f
               | Inr cx' \<Rightarrow>
                   Inr (E1\<lparr>cy := u16 current, cx := u16 (int cx'), rowoff := numrows E1,
                           row := (row E1)[nat current :=
                                    r\<lparr>hl := memset_hl (hl r) off HL_MATCH (length query)\<rparr>]\<rparr>,
                        fs3\<lparr>last_match := current, saved_hl_line := nat current,
                            saved_hl := Some (hl r)\<rparr>)))))"

section \<open>The highlighter on concrete files\<close>

text \<open>
  The classes of all rows of a result, row by row. \<open>no_junk\<close> and \<open>no_byte\<close> fill the
  memory the editor does not initialise with zeros.
\<close>

definition classes ::
  "(fault + editorConfig) option \<Rightarrow> (fault + editorHighlight list list) option" where
  "classes res = map_option (map_sum id (\<lambda>E. map hl (row E))) res"

text \<open>The characters of all rows of a result, row by row.\<close>

definition texts :: "(fault + editorConfig) option \<Rightarrow> (fault + string list) option" where
  "texts res = map_option (map_sum id (\<lambda>E. map chars (row E))) res"

definition no_junk :: "nat \<Rightarrow> erow" where
  "no_junk n = \<lparr>idx = 0, chars = [], render = [], render_pre = NUL, hl = [],
                 hl_open_comment = 0, chars_end = NUL\<rparr>"

definition no_byte :: "nat \<Rightarrow> char" where
  "no_byte n = NUL"

text \<open>
  C2. The file of the four lines \<open>int x = 1; // note\<close>, \<open>/* block\<close>,
  \<open>still in block\<close>, \<open>end */ done\<close>, opened under the C profile. Row 0 is
  \<^verbatim>\<open>HL_COMMENT\<close> from the \<open>//\<close> on. In rows 1 to 3 only the markers \<open>/*\<close> and \<open>*/\<close>
  carry \<^verbatim>\<open>HL_MLCOMMENT\<close>: every other character inside the block comment carries
  \<^verbatim>\<open>HL_COMMENT\<close>, the class of single-line comments. The rest of row 3 is
  \<^verbatim>\<open>HL_NORMAL\<close>.
\<close>

theorem block_comment_scenario_classes:
  "classes (editorOpen (initEditor (Some HLDB_c))
      (''int x = 1; // note'' @ [LF] @ ''/* block'' @ [LF] @ ''still in block'' @ [LF]
        @ ''end */ done'' @ [LF]) no_junk no_byte)
   = Some (Inr
      [[HL_KEYWORD2, HL_KEYWORD2, HL_KEYWORD2, HL_NORMAL, HL_NORMAL, HL_NORMAL, HL_NORMAL,
        HL_NORMAL, HL_NUMBER, HL_NORMAL, HL_NORMAL,
        HL_COMMENT, HL_COMMENT, HL_COMMENT, HL_COMMENT, HL_COMMENT, HL_COMMENT, HL_COMMENT],
       [HL_MLCOMMENT, HL_MLCOMMENT, HL_COMMENT, HL_COMMENT, HL_COMMENT, HL_COMMENT,
        HL_COMMENT, HL_COMMENT],
       [HL_COMMENT, HL_COMMENT, HL_COMMENT, HL_COMMENT, HL_COMMENT, HL_COMMENT, HL_COMMENT,
        HL_COMMENT, HL_COMMENT, HL_COMMENT, HL_COMMENT, HL_COMMENT, HL_COMMENT, HL_COMMENT],
       [HL_COMMENT, HL_COMMENT, HL_COMMENT, HL_COMMENT, HL_MLCOMMENT, HL_MLCOMMENT,
        HL_NORMAL, HL_NORMAL, HL_NORMAL, HL_NORMAL, HL_NORMAL]])"
  by code_simp

text \<open>
  C3. The one-line file \<open>// int x\<close> under the C profile. The marker \<open>//\<close> matches at
  position 0, outside a string and a block comment, and the rest of the row is filled
  with \<^verbatim>\<open>HL_COMMENT\<close>; the scan does not stop there, and at position 3 the keyword rule
  gives \<open>int\<close> the class \<^verbatim>\<open>HL_KEYWORD2\<close>.
\<close>

theorem single_line_comment_scan_goes_on:
  "strncmp_eq ''// int x'' 0 (singleline_comment_start HLDB_c) 2
   \<and> classes (editorOpen (initEditor (Some HLDB_c)) ''// int x'' no_junk no_byte)
     = Some (Inr [[HL_COMMENT, HL_COMMENT, HL_COMMENT, HL_KEYWORD2, HL_KEYWORD2, HL_KEYWORD2,
                   HL_COMMENT, HL_COMMENT]])"
  by code_simp

text \<open>
  C10. Two reads below index 0 under the C profile. On the one-line file \<open>f(x)\<close> the
  backward walk of the function-name rule starts at \<open>f\<close>, finds no space down to index
  0 and goes on to \<^verbatim>\<open>render[-1]\<close> and \<^verbatim>\<open>hl[-1]\<close>: the pass leaves the row. On the
  one-line file \<open>x\<close> the class of the only character is decided by \<^verbatim>\<open>render[-1]\<close>, the
  byte in front of the block: a number when that byte is \<open>0\<close>, normal when it is NUL.
\<close>

theorem highlighter_reads_below_zero:
  "editorOpen (initEditor (Some HLDB_c)) ''f(x)'' no_junk no_byte = Some (Inl OutOfBounds)
   \<and> classes (editorOpen (initEditor (Some HLDB_c)) ''x'' no_junk (\<lambda>n. CHR ''0''))
       = Some (Inr [[HL_NUMBER]])
   \<and> classes (editorOpen (initEditor (Some HLDB_c)) ''x'' no_junk no_byte)
       = Some (Inr [[HL_NORMAL]])"
  by code_simp

section \<open>The search wraps around the buffer\<close>

text \<open>
  The rows in the order a search from the anchor row \<open>a\<close> in direction \<open>dir\<close> looks at
  them in a buffer of \<open>n\<close> rows, and the first of a list of rows that holds the query.
\<close>

definition scan_order :: "nat \<Rightarrow> int \<Rightarrow> int \<Rightarrow> int list" where
  "scan_order n a dir = map (\<lambda>j. (a + dir * (int j + 1)) mod int n) [0..<n]"

fun first_match :: "editorConfig \<Rightarrow> string \<Rightarrow> int list \<Rightarrow> (int \<times> nat) option" where
  "first_match E query [] = None"
| "first_match E query (c # cs) =
     (case strstr (cstr (render (row E ! nat c))) query of
        Some off \<Rightarrow> Some (c, off)
      | None \<Rightarrow> first_match E query cs)"

definition foo_bar_foo :: editorConfig where
  "foo_bar_foo =
     \<lparr>tab_stop = 4,
      row = [\<lparr>idx = 0, chars = ''foo'', render = ''foo'', render_pre = NUL,
               hl = [HL_NORMAL, HL_NORMAL, HL_NORMAL], hl_open_comment = 0, chars_end = NUL\<rparr>,
             \<lparr>idx = 1, chars = ''bar'', render = ''bar'', render_pre = NUL,
               hl = [HL_NORMAL, HL_NORMAL, HL_NORMAL], hl_open_comment = 0, chars_end = NUL\<rparr>,
             \<lparr>idx = 2, chars = ''foo'', render = ''foo'', render_pre = NUL,
               hl = [HL_NORMAL, HL_NORMAL, HL_NORMAL], hl_open_comment = 0, chars_end = NUL\<rparr>],
      syntax_hl = None, cx = 0, cy = 2, rowoff = 0, numrows = 3, dirty = 0\<rparr>"

lemma find_wrap_step:
  assumes "0 < n" and "(dir = 1 \<and> -1 \<le> cur) \<or> (dir = -1 \<and> 0 \<le> cur)" and "cur < int n"
  shows "(if cur + dir = -1 then int n - 1 else if cur + dir = int n then 0 else cur + dir)
         = (cur + dir) mod int n"
proof -
  from assms(2) show ?thesis
  proof
    assume d: "dir = 1 \<and> -1 \<le> cur"
    show ?thesis
    proof (cases "cur + 1 = int n")
      case True
      then show ?thesis using d assms(1) by simp
    next
      case False
      then have "0 \<le> cur + 1" "cur + 1 < int n" using d assms(3) by simp_all
      then show ?thesis using d False by simp
    qed
  next
    assume d: "dir = -1 \<and> 0 \<le> cur"
    show ?thesis
    proof (cases "cur = 0")
      case True
      have "(- 1) mod int n = int n - 1" using assms(1)
        by (simp add: zmod_minus1)
      then show ?thesis using d True by simp
    next
      case False
      then have "0 \<le> cur - 1" "cur - 1 < int n" using d assms(3) by simp_all
      then show ?thesis using d False assms(3) by simp
    qed
  qed
qed

lemma find_loop_order:
  assumes len: "numrows E = length (row E)"
    and dir: "dir = 1 \<or> dir = -1"
  shows "i \<le> numrows E \<Longrightarrow> (dir = 1 \<and> -1 \<le> cur) \<or> (dir = -1 \<and> 0 \<le> cur)
     \<Longrightarrow> cur < int (numrows E) \<Longrightarrow>
     find_loop E query dir cur i =
       Inr (first_match E query
             (map (\<lambda>j. (cur + dir * (int j + 1)) mod int (numrows E)) [0..<numrows E - i]))"
proof (induction "numrows E - i" arbitrary: i cur)
  case 0
  then have "\<not> i < numrows E" by simp
  then show ?case using 0 by (simp add: find_loop.simps)
next
  case (Suc m)
  let ?n = "numrows E"
  have i: "i < ?n" using Suc.hyps(2) by simp
  then have n: "0 < ?n" by simp
  let ?c2 = "(cur + dir) mod int ?n"
  have wrap: "(if cur + dir = -1 then int ?n - 1 else if cur + dir = int ?n then 0 else cur + dir)
              = ?c2"
    using find_wrap_step[OF n Suc.prems(2) Suc.prems(3)] .
  have c2: "0 \<le> ?c2" "?c2 < int ?n" using n by simp_all
  have upt: "[0..<?n - i] = 0 # map Suc [0..<?n - Suc i]"
    using i by (metis Suc_diff_Suc map_Suc_upt upt_conv_Cons zero_less_Suc)
  have shift: "\<And>j. (cur + dir * (int (Suc j) + 1)) mod int ?n
                   = (?c2 + dir * (int j + 1)) mod int ?n"
  proof -
    fix j
    have "(?c2 + dir * (int j + 1)) mod int ?n = ((cur + dir) + dir * (int j + 1)) mod int ?n"
      by (rule mod_add_left_eq)
    also have "(cur + dir) + dir * (int j + 1) = cur + dir * (int (Suc j) + 1)"
      by (simp add: algebra_simps)
    finally show "(cur + dir * (int (Suc j) + 1)) mod int ?n = (?c2 + dir * (int j + 1)) mod int ?n"
      by simp
  qed
  have lst: "map (\<lambda>j. (cur + dir * (int j + 1)) mod int ?n) [0..<?n - i]
             = ?c2 # map (\<lambda>j. (?c2 + dir * (int j + 1)) mod int ?n) [0..<?n - Suc i]"
    unfolding upt using shift by (simp add: comp_def)
  have m: "m = ?n - Suc i" using Suc.hyps(2) by simp
  have c2r: "(dir = 1 \<and> -1 \<le> ?c2) \<or> (dir = -1 \<and> 0 \<le> ?c2)" using dir c2 by auto
  have IH: "find_loop E query dir ?c2 (Suc i) =
      Inr (first_match E query
            (map (\<lambda>j. (?c2 + dir * (int j + 1)) mod int ?n) [0..<?n - Suc i]))"
    using Suc.hyps(1)[OF m _ c2r c2(2)] i by simp
  have step: "find_loop E query dir cur i =
      (case strstr (cstr (render (row E ! nat ?c2))) query of
         Some off \<Rightarrow> Inr (Some (?c2, off))
       | None \<Rightarrow> find_loop E query dir ?c2 (Suc i))"
    apply (subst find_loop.simps)
    apply (simp only: Let_def wrap)
    using i c2 len apply simp
    done
  show ?case unfolding step lst IH by (simp split: option.split)
qed

lemma rx_loop_total:
  "0 < ts \<Longrightarrow> \<exists>c. rx_loop ts cs rx' c0 cur = Inr c"
proof (induction "length cs - c0" arbitrary: c0 cur)
  case 0
  then show ?case by (simp add: rx_loop.simps)
next
  case (Suc m)
  then have c: "c0 < length cs" by simp
  let ?cur = "(if cs ! c0 = TAB then cur + ((ts - 1) - cur mod ts) else cur) + 1"
  have m: "m = length cs - Suc c0" using Suc.hyps(2) by simp
  from Suc.hyps(1)[OF m Suc.prems, of ?cur]
  obtain c' where "rx_loop ts cs rx' (Suc c0) ?cur = Inr c'" by blast
  then show ?case using c Suc.prems by (subst rx_loop.simps) (simp add: Let_def)
qed

lemma first_match_cong:
  "\<forall>c\<in>set cs. render (row E' ! nat c) = render (row E ! nat c)
   \<Longrightarrow> first_match E' query cs = first_match E query cs"
  by (induction cs) (simp_all split: option.split)

lemma first_match_in:
  "first_match E query cs = Some (c, off)
   \<Longrightarrow> c \<in> set cs \<and> strstr (cstr (render (row E ! nat c))) query = Some off"
  by (induction cs) (auto split: option.splits)

lemma scan_order_range:
  assumes "c \<in> set (scan_order n a dir)"
  shows "0 \<le> c \<and> c < int n"
proof -
  from assms obtain j where j: "j < n" and c: "c = (a + dir * (int j + 1)) mod int n"
    by (auto simp: scan_order_def)
  from j have "0 < int n" by simp
  then show ?thesis unfolding c by simp
qed

text \<open>
  C5. Take a buffer of \<open>n\<close> rows with a positive tab width, and the static variables
  as a search leaves them: the anchor \<^verbatim>\<open>last_match\<close> is a row of the buffer, or -1 when
  there was no match yet, and a saved \<^verbatim>\<open>hl\<close> belongs to a row of the buffer. On an arrow
  key \<^verbatim>\<open>editorFindCallback\<close> searches forward (right, down, or no anchor) or backward
  (left, up) and returns. It looks at the rows \<open>(a + 1) mod n, (a + 2) mod n, ...\<close> when
  it runs forward and at \<open>(a - 1) mod n, (a - 2) mod n, ...\<close> when it runs backward, every
  row once, so it goes from the last row to row 0 and from row 0 to the last row. It
  stops at the first of them that holds the query, which becomes the new anchor and the
  cursor row; when none does, the anchor and the cursor stay. For the rows \<open>foo\<close>,
  \<open>bar\<close>, \<open>foo\<close> and the query \<open>foo\<close>: with the anchor in row 2 the forward search
  (arrow down) finds row 0, and with the anchor in row 0 the backward search (arrow up)
  finds row 2.
\<close>

theorem find_wraps_around:
  assumes n: "numrows E = length (row E)"
    and ts: "0 < tab_stop E"
    and sv: "saved_hl fs = None \<or> saved_hl_line fs < length (row E)"
    and a: "-1 \<le> last_match fs" "last_match fs < int (numrows E)"
    and key: "key = ARROW_RIGHT \<or> key = ARROW_DOWN \<or> key = ARROW_LEFT \<or> key = ARROW_UP"
    and dir: "dir = (if last_match fs \<noteq> -1 \<and> (key = ARROW_LEFT \<or> key = ARROW_UP) then -1 else 1)"
  shows "(case first_match E query (scan_order (numrows E) (last_match fs) dir) of
            None \<Rightarrow>
              (\<exists>E' fs'. editorFindCallback E fs query key = Inr (E', fs')
                 \<and> last_match fs' = last_match fs \<and> cy E' = cy E \<and> cx E' = cx E)
          | Some (c, off) \<Rightarrow>
              (\<exists>E' fs'. editorFindCallback E fs query key = Inr (E', fs')
                 \<and> last_match fs' = c \<and> cy E' = u16 c \<and> direction fs' = dir))
    \<and> scan_order 3 2 1 = [0, 1, 2] \<and> scan_order 3 0 (-1) = [2, 1, 0]
    \<and> map_sum id (\<lambda>(E', fs'). (last_match fs', cy E'))
         (editorFindCallback foo_bar_foo
            \<lparr>last_match = 2, direction = 1, saved_hl_line = 2, saved_hl = None\<rparr>
            ''foo'' ARROW_DOWN) = Inr (0, 0)
    \<and> map_sum id (\<lambda>(E', fs'). (last_match fs', cy E'))
         (editorFindCallback foo_bar_foo
            \<lparr>last_match = 0, direction = 1, saved_hl_line = 0, saved_hl = None\<rparr>
            ''foo'' ARROW_UP) = Inr (2, 2)"
proof -
  let ?n = "numrows E"
  let ?a = "last_match fs"
  let ?E1 = "(case saved_hl fs of
                None \<Rightarrow> E
              | Some sv \<Rightarrow>
                  E\<lparr>row := (row E)[saved_hl_line fs := (row E ! saved_hl_line fs)\<lparr>hl := sv\<rparr>]\<rparr>)"
  let ?fs3 = "fs\<lparr>saved_hl := None, direction := dir\<rparr>"
  have keys: "key \<noteq> 13" "key \<noteq> 27" using key by (auto simp: editorKey_defs)
  have d: "dir = 1 \<or> dir = -1" using dir by auto
  have da: "(dir = 1 \<and> -1 \<le> ?a) \<or> (dir = -1 \<and> 0 \<le> ?a)" using dir a(1) by auto
  have svk: "saved_hl fs = Some x \<Longrightarrow> saved_hl_line fs < length (row E)" for x
    using sv by auto
  have E1: "numrows ?E1 = ?n" "length (row ?E1) = length (row E)" "tab_stop ?E1 = tab_stop E"
    "cy ?E1 = cy E" "cx ?E1 = cx E" "map render (row ?E1) = map render (row E)"
    "map chars (row ?E1) = map chars (row E)"
    by (cases "saved_hl fs"; simp add: map_update list_update_same_conv svk)+
  have n1: "numrows ?E1 = length (row ?E1)" using n E1 by simp
  have ok: "\<not> (saved_hl fs \<noteq> None \<and> length (row E) \<le> saved_hl_line fs)" using sv by auto
  let ?order = "scan_order ?n ?a dir"
  have fl: "find_loop ?E1 query dir ?a 0 = Inr (first_match ?E1 query ?order)"
    using find_loop_order[OF n1 d, of 0 ?a query] da a(2) E1(1)
    by (simp add: scan_order_def)
  have same: "first_match ?E1 query ?order = first_match E query ?order"
  proof (rule first_match_cong, rule ballI)
    fix c assume "c \<in> set ?order"
    from scan_order_range[OF this] have c: "nat c < length (row E)" using n by linarith
    have "render (row ?E1 ! nat c) = map render (row ?E1) ! nat c" using c E1(2) by simp
    also have "\<dots> = map render (row E) ! nat c" by (simp only: E1(6))
    also have "\<dots> = render (row E ! nat c)" using c by simp
    finally show "render (row ?E1 ! nat c) = render (row E ! nat c)" .
  qed
  have fs3: "(let fs1 = fs\<lparr>saved_hl := None\<rparr>;
                  fs2 = (if key = ARROW_RIGHT \<or> key = ARROW_DOWN then fs1\<lparr>direction := 1\<rparr>
                         else if key = ARROW_LEFT \<or> key = ARROW_UP then fs1\<lparr>direction := -1\<rparr>
                         else fs1\<lparr>last_match := -1, direction := 1\<rparr>)
              in (if last_match fs2 = -1 then fs2\<lparr>direction := 1\<rparr> else fs2)) = ?fs3"
    using key dir by (auto simp: editorKey_defs Let_def)
  have cb: "editorFindCallback E fs query key =
      (case first_match E query ?order of
         None \<Rightarrow> Inr (?E1, ?fs3)
       | Some (current, off) \<Rightarrow>
           (let r = row ?E1 ! nat current in
            case editorRowRxToCx ?E1 r (int off) of
              Inl f \<Rightarrow> Inl f
            | Inr cx' \<Rightarrow>
                Inr (?E1\<lparr>cy := u16 current, cx := u16 (int cx'), rowoff := numrows ?E1,
                        row := (row ?E1)[nat current :=
                                 r\<lparr>hl := memset_hl (hl r) off HL_MATCH (length query)\<rparr>]\<rparr>,
                     ?fs3\<lparr>last_match := current, saved_hl_line := nat current,
                          saved_hl := Some (hl r)\<rparr>)))"
  proof -
    have "editorFindCallback E fs query key =
      (case find_loop ?E1 query (direction ?fs3) (last_match ?fs3) 0 of
         Inl f \<Rightarrow> Inl f
       | Inr None \<Rightarrow> Inr (?E1, ?fs3)
       | Inr (Some (current, off)) \<Rightarrow>
           (let r = row ?E1 ! nat current in
            case editorRowRxToCx ?E1 r (int off) of
              Inl f \<Rightarrow> Inl f
            | Inr cx' \<Rightarrow>
                Inr (?E1\<lparr>cy := u16 current, cx := u16 (int cx'), rowoff := numrows ?E1,
                        row := (row ?E1)[nat current :=
                                 r\<lparr>hl := memset_hl (hl r) off HL_MATCH (length query)\<rparr>]\<rparr>,
                     ?fs3\<lparr>last_match := current, saved_hl_line := nat current,
                          saved_hl := Some (hl r)\<rparr>)))"
      unfolding editorFindCallback_def using ok keys fs3
      by (simp only: if_False Let_def simp_thms)
    then show ?thesis using fl same by simp
  qed
  have gen: "(case first_match E query ?order of
            None \<Rightarrow>
              (\<exists>E' fs'. editorFindCallback E fs query key = Inr (E', fs')
                 \<and> last_match fs' = last_match fs \<and> cy E' = cy E \<and> cx E' = cx E)
          | Some (c, off) \<Rightarrow>
              (\<exists>E' fs'. editorFindCallback E fs query key = Inr (E', fs')
                 \<and> last_match fs' = c \<and> cy E' = u16 c \<and> direction fs' = dir))"
  proof (cases "first_match E query ?order")
    case None
    then show ?thesis using cb E1 by simp
  next
    case (Some m)
    obtain c off where m: "m = (c, off)" by (cases m)
    from rx_loop_total[OF ts, of "chars (row ?E1 ! nat c)" "int off" 0 0]
    obtain cx' where "editorRowRxToCx ?E1 (row ?E1 ! nat c) (int off) = Inr cx'"
      using E1(3) by (auto simp: editorRowRxToCx_def)
    then show ?thesis using cb Some m by (simp add: Let_def)
  qed
  have 2: "scan_order 3 2 1 = [0, 1, 2]" by code_simp
  have 3: "scan_order 3 0 (-1) = [2, 1, 0]" by code_simp
  have 4: "map_sum id (\<lambda>(E', fs'). (last_match fs', cy E'))
         (editorFindCallback foo_bar_foo
            \<lparr>last_match = 2, direction = 1, saved_hl_line = 2, saved_hl = None\<rparr>
            ''foo'' ARROW_DOWN) = Inr (0, 0)" by code_simp
  have 5: "map_sum id (\<lambda>(E', fs'). (last_match fs', cy E'))
         (editorFindCallback foo_bar_foo
            \<lparr>last_match = 0, direction = 1, saved_hl_line = 0, saved_hl = None\<rparr>
            ''foo'' ARROW_UP) = Inr (2, 2)" by code_simp
  from gen 2 3 4 5 show ?thesis by (intro conjI)
qed

theorem find_wraps_around_witness:
  "numrows foo_bar_foo = length (row foo_bar_foo) \<and> 0 < tab_stop foo_bar_foo
   \<and> first_match foo_bar_foo ''foo'' (scan_order 3 2 1) = Some (0, 0)
   \<and> (\<exists>E' fs'. editorFindCallback foo_bar_foo
          \<lparr>last_match = 2, direction = 1, saved_hl_line = 2, saved_hl = None\<rparr> ''foo'' ARROW_DOWN
        = Inr (E', fs') \<and> last_match fs' = 0 \<and> cy E' = 0 \<and> direction fs' = 1)
   \<and> first_match foo_bar_foo ''bar'' (scan_order 3 0 (-1)) = Some (1, 0)
   \<and> (\<exists>E' fs'. editorFindCallback foo_bar_foo
          \<lparr>last_match = 0, direction = 1, saved_hl_line = 0, saved_hl = None\<rparr> ''bar'' ARROW_UP
        = Inr (E', fs') \<and> last_match fs' = 1 \<and> cy E' = 1 \<and> direction fs' = -1)"
proof -
  let ?f2 = "\<lparr>last_match = 2, direction = 1, saved_hl_line = 2, saved_hl = None\<rparr>"
  let ?f0 = "\<lparr>last_match = 0, direction = 1, saved_hl_line = 0, saved_hl = None\<rparr>"
  have l: "numrows foo_bar_foo = length (row foo_bar_foo)" by (simp add: foo_bar_foo_def)
  have t: "0 < tab_stop foo_bar_foo" by (simp add: foo_bar_foo_def)
  have n: "numrows foo_bar_foo = 3" by (simp add: foo_bar_foo_def)
  have f1: "first_match foo_bar_foo ''foo'' (scan_order 3 2 1) = Some (0, 0)" by code_simp
  have f2: "first_match foo_bar_foo ''bar'' (scan_order 3 0 (-1)) = Some (1, 0)" by code_simp
  have u: "u16 0 = 0" "u16 1 = 1" by (simp_all add: u16_def)
  have s2: "saved_hl ?f2 = None \<or> saved_hl_line ?f2 < length (row foo_bar_foo)" by simp
  have s0: "saved_hl ?f0 = None \<or> saved_hl_line ?f0 < length (row foo_bar_foo)" by simp
  have a2: "-1 \<le> last_match ?f2" "last_match ?f2 < int (numrows foo_bar_foo)" by (simp_all add: n)
  have a0: "-1 \<le> last_match ?f0" "last_match ?f0 < int (numrows foo_bar_foo)" by (simp_all add: n)
  have kd: "ARROW_DOWN = ARROW_RIGHT \<or> ARROW_DOWN = ARROW_DOWN \<or> ARROW_DOWN = ARROW_LEFT
            \<or> ARROW_DOWN = ARROW_UP" by simp
  have ku: "ARROW_UP = ARROW_RIGHT \<or> ARROW_UP = ARROW_DOWN \<or> ARROW_UP = ARROW_LEFT
            \<or> ARROW_UP = ARROW_UP" by simp
  have dd: "(1::int) = (if last_match ?f2 \<noteq> -1 \<and> (ARROW_DOWN = ARROW_LEFT \<or> ARROW_DOWN = ARROW_UP)
                        then -1 else 1)" by (simp add: editorKey_defs)
  have du: "(-1::int) = (if last_match ?f0 \<noteq> -1 \<and> (ARROW_UP = ARROW_LEFT \<or> ARROW_UP = ARROW_UP)
                         then -1 else 1)" by simp
  have r1: "\<exists>E' fs'. editorFindCallback foo_bar_foo ?f2 ''foo'' ARROW_DOWN = Inr (E', fs')
        \<and> last_match fs' = 0 \<and> cy E' = 0 \<and> direction fs' = 1"
    using find_wraps_around[OF l t s2 a2 kd dd, of "''foo''"]
    by (simp add: n f1 u)
  have r2: "\<exists>E' fs'. editorFindCallback foo_bar_foo ?f0 ''bar'' ARROW_UP = Inr (E', fs')
        \<and> last_match fs' = 1 \<and> cy E' = 1 \<and> direction fs' = -1"
    using find_wraps_around[OF l t s0 a0 ku du, of "''bar''"]
    by (simp add: n f2 u)
  from l t f1 r1 f2 r2 show ?thesis by (intro conjI)
qed

section \<open>Invariants of the buffer\<close>

text \<open>
  The editor state without its highlighting: every \<^verbatim>\<open>hl\<close> and \<^verbatim>\<open>hl_open_comment\<close>
  cleared. Two states with the same \<open>strip_hl\<close> differ in the highlighting only.
\<close>

definition strip_hl :: "editorConfig \<Rightarrow> editorConfig" where
  "strip_hl E = E\<lparr>row := map (\<lambda>r. r\<lparr>hl := [], hl_open_comment := 0\<rparr>) (row E)\<rparr>"

text \<open>Every row's \<^verbatim>\<open>idx\<close> is its offset in the array.\<close>

definition idx_ok :: "editorConfig \<Rightarrow> bool" where
  "idx_ok E = (map idx (row E) = map int [0..<length (row E)])"

lemma idx_okD: "idx_ok E \<Longrightarrow> k < length (row E) \<Longrightarrow> idx (row E ! k) = int k"
proof -
  assume a: "idx_ok E" and k: "k < length (row E)"
  have "idx (row E ! k) = map idx (row E) ! k" using k by simp
  also have "\<dots> = map int [0..<length (row E)] ! k" using a by (simp add: idx_ok_def)
  also have "\<dots> = int k" using k by simp
  finally show ?thesis .
qed

lemma strip_hl_fields:
  "strip_hl E' = strip_hl E \<Longrightarrow>
     length (row E') = length (row E) \<and> numrows E' = numrows E \<and> tab_stop E' = tab_stop E
     \<and> syntax_hl E' = syntax_hl E \<and> dirty E' = dirty E \<and> cx E' = cx E \<and> cy E' = cy E
     \<and> rowoff E' = rowoff E
     \<and> map idx (row E') = map idx (row E) \<and> map chars (row E') = map chars (row E)
     \<and> map render (row E') = map render (row E)
     \<and> map render_pre (row E') = map render_pre (row E)"
proof -
  assume a: "strip_hl E' = strip_hl E"
  let ?f = "\<lambda>r::erow. r\<lparr>hl := [], hl_open_comment := 0\<rparr>"
  from a have r: "map ?f (row E') = map ?f (row E)"
    by (metis editorConfig.select_convs(2) editorConfig.surjective editorConfig.update_convs(2)
        strip_hl_def)
  have f: "\<And>g rs. (\<And>r. g (?f r) = g r) \<Longrightarrow> map g (map ?f rs) = map g rs"
    by (simp add: comp_def)
  have 1: "map idx (row E') = map idx (row E)"
    using arg_cong[OF r, of "map idx"] by (simp add: comp_def)
  have 2: "map chars (row E') = map chars (row E)"
    using arg_cong[OF r, of "map chars"] by (simp add: comp_def)
  have 3: "map render (row E') = map render (row E)"
    using arg_cong[OF r, of "map render"] by (simp add: comp_def)
  have 4: "map render_pre (row E') = map render_pre (row E)"
    using arg_cong[OF r, of "map render_pre"] by (simp add: comp_def)
  have 5: "length (row E') = length (row E)"
    using arg_cong[OF r, of length] by simp
  have 6: "numrows E' = numrows E" "tab_stop E' = tab_stop E" "syntax_hl E' = syntax_hl E"
    "dirty E' = dirty E" "cx E' = cx E" "cy E' = cy E" "rowoff E' = rowoff E"
    using arg_cong[OF a, of numrows] arg_cong[OF a, of tab_stop] arg_cong[OF a, of syntax_hl]
      arg_cong[OF a, of dirty] arg_cong[OF a, of cx] arg_cong[OF a, of cy]
      arg_cong[OF a, of rowoff]
    by (simp_all add: strip_hl_def)
  from 1 2 3 4 5 6 show ?thesis by simp
qed

lemma strip_hl_put:
  "k < length (row E) \<Longrightarrow>
   strip_hl (E\<lparr>row := (row E)[k := (row E ! k)\<lparr>hl := h, hl_open_comment := c\<rparr>]\<rparr>) = strip_hl E"
  by (simp add: strip_hl_def map_update list_update_same_conv)

lemma strip_hl_put_hl:
  "k < length (row E) \<Longrightarrow>
   strip_hl (E\<lparr>row := (row E)[k := (row E ! k)\<lparr>hl := h\<rparr>]\<rparr>) = strip_hl E"
  by (simp add: strip_hl_def map_update list_update_same_conv)

text \<open>\<^verbatim>\<open>editorUpdateSyntax\<close> changes the highlighting only.\<close>

lemma editorUpdateSyntax_strip_all:
  "editorUpdateSyntax E k = Some res \<Longrightarrow> \<forall>E'. res = Inr E' \<longrightarrow> strip_hl E' = strip_hl E"
proof (rule editorUpdateSyntax.raw_induct
    [where P = "\<lambda>E k res. \<forall>E'. res = Inr E' \<longrightarrow> strip_hl E' = strip_hl E"], goal_cases)
  case (1 upd E k res)
  note IH = 1(2) and body = 1(3)
  show ?case
  proof (intro allI impI)
    fix E' assume res: "res = Inr E'"
    from body res have k: "k < length (row E)"
      by (auto split: if_splits)
    show "strip_hl E' = strip_hl E"
    proof (cases "syntax_hl E")
      case None
      with body res k have "E' = E\<lparr>row := (row E)[k := (row E ! k)
          \<lparr>hl := replicate (length (render (row E ! k))) HL_NORMAL\<rparr>]\<rparr>"
        by (simp add: Let_def)
      then show ?thesis using k by (simp only: strip_hl_put_hl)
    next
      case (Some syn)
      let ?r = "row E ! k"
      let ?scan = "hl_loop syn (render ?r) (render_pre ?r)
         (hl_init (length (render ?r))
            (0 < idx ?r \<and> hl_open_comment (row E ! nat (idx ?r - 1)) \<noteq> 0))"
      from body res k Some obtain st where st: "?scan = Inr st"
        by (cases ?scan) (auto simp: Let_def split: if_splits)
      let ?E1 = "E\<lparr>row := (row E)[k := ?r\<lparr>hl := hls st,
                      hl_open_comment := (if in_comment st then 1 else 0)\<rparr>]\<rparr>"
      have s1: "strip_hl ?E1 = strip_hl E" using k by (rule strip_hl_put)
      from body res k Some st
      have "upd ?E1 (nat (idx ?r + 1)) = Some (Inr E') \<or> E' = ?E1"
        by (auto simp: Let_def split: if_splits)
      then show ?thesis
      proof
        assume "upd ?E1 (nat (idx ?r + 1)) = Some (Inr E')"
        from IH[OF this] have "strip_hl E' = strip_hl ?E1" by simp
        with s1 show ?thesis by simp
      next
        assume "E' = ?E1"
        with s1 show ?thesis by simp
      qed
    qed
  qed
qed (assumption)

lemma editorUpdateSyntax_strip:
  "editorUpdateSyntax E k = Some (Inr E') \<Longrightarrow> strip_hl E' = strip_hl E"
  using editorUpdateSyntax_strip_all by blast

subsection \<open>Rows whose highlighting is up to date\<close>

text \<open>
  \<open>row_scan\<close> is the scan of row \<open>k\<close> as \<^verbatim>\<open>editorUpdateSyntax\<close> runs it in a buffer
  whose rows are numbered by their offsets: from the row's \<^verbatim>\<open>render\<close> and the
  \<^verbatim>\<open>hl_open_comment\<close> of the row before. \<open>row_put\<close> stores its result in the row.
  Row \<open>k\<close> is up to date (\<open>row_ok\<close>) when it holds the result of its scan, and the
  buffer is (\<open>hl_consistent\<close>) when every row is.
\<close>

definition row_seed :: "editorConfig \<Rightarrow> nat \<Rightarrow> bool" where
  "row_seed E k = (0 < k \<and> hl_open_comment (row E ! (k - 1)) \<noteq> 0)"

definition row_scan :: "editorSyntax \<Rightarrow> editorConfig \<Rightarrow> nat \<Rightarrow> fault + hl_state" where
  "row_scan syn E k =
     hl_loop syn (render (row E ! k)) (render_pre (row E ! k))
       (hl_init (length (render (row E ! k))) (row_seed E k))"

definition flag_int :: "bool \<Rightarrow> int" where
  "flag_int b = (if b then 1 else 0)"

definition row_put :: "editorConfig \<Rightarrow> nat \<Rightarrow> hl_state \<Rightarrow> editorConfig" where
  "row_put E k st =
     E\<lparr>row := (row E)[k := (row E ! k)\<lparr>hl := hls st,
                   hl_open_comment := flag_int (in_comment st)\<rparr>]\<rparr>"

definition row_ok :: "editorConfig \<Rightarrow> nat \<Rightarrow> bool" where
  "row_ok E k =
     (case syntax_hl E of
        None \<Rightarrow> hl (row E ! k) = replicate (length (render (row E ! k))) HL_NORMAL
      | Some syn \<Rightarrow>
          (case row_scan syn E k of
             Inl f \<Rightarrow> False
           | Inr st \<Rightarrow> hl (row E ! k) = hls st
                \<and> hl_open_comment (row E ! k) = flag_int (in_comment st)))"

definition hl_consistent :: "editorConfig \<Rightarrow> bool" where
  "hl_consistent E = list_all (row_ok E) [0..<length (row E)]"

lemma hl_consistent_iff: "hl_consistent E = (\<forall>k<length (row E). row_ok E k)"
  by (auto simp: hl_consistent_def list_all_iff)

lemma row_ok_cong:
  assumes "syntax_hl E' = syntax_hl E" and "row E' ! j = row E ! j"
    and "row_seed E' j = row_seed E j"
  shows "row_ok E' j = row_ok E j"
  unfolding row_ok_def row_scan_def assms by (rule refl)

lemma row_seed_cong:
  assumes "0 < j \<Longrightarrow> row E' ! (j - 1) = row E ! (j - 1)"
  shows "row_seed E' j = row_seed E j"
  using assms by (auto simp: row_seed_def)

lemma row_put_simps:
  "length (row (row_put E k st)) = length (row E)"
  "numrows (row_put E k st) = numrows E"
  "syntax_hl (row_put E k st) = syntax_hl E"
  "j \<noteq> k \<Longrightarrow> row (row_put E k st) ! j = row E ! j"
  by (simp_all add: row_put_def)

lemma row_put_idx_ok: "idx_ok E \<Longrightarrow> idx_ok (row_put E k st)"
proof -
  assume a: "idx_ok E"
  have "strip_hl (row_put E k st) = strip_hl E"
  proof (cases "k < length (row E)")
    case True
    then show ?thesis unfolding row_put_def by (rule strip_hl_put)
  next
    case False
    then have "row_put E k st = E" by (simp add: row_put_def list_update_beyond)
    then show ?thesis by simp
  qed
  from strip_hl_fields[OF this] a show ?thesis by (simp add: idx_ok_def)
qed

lemma row_put_scan_same:
  "row_scan syn (row_put E k st) k = row_scan syn E k"
proof (cases "k < length (row E)")
  case True
  have "row_seed (row_put E k st) k = row_seed E k"
    by (rule row_seed_cong) (simp add: row_put_def)
  then show ?thesis using True by (simp add: row_scan_def row_put_def)
next
  case False
  then have "row_put E k st = E" by (simp add: row_put_def list_update_beyond)
  then show ?thesis by simp
qed

lemma row_put_ok:
  assumes "k < length (row E)" and "syntax_hl E = Some syn" and "row_scan syn E k = Inr st"
  shows "row_ok (row_put E k st) k"
proof -
  have "row_scan syn (row_put E k st) k = Inr st"
    using assms(3) by (simp add: row_put_scan_same)
  then show ?thesis using assms(1,2) by (simp add: row_ok_def row_put_simps) (simp add: row_put_def)
qed

lemma row_put_other_ok:
  assumes "j \<noteq> k" and "j \<noteq> Suc k"
  shows "row_ok (row_put E k st) j = row_ok E j"
proof (rule row_ok_cong)
  show "syntax_hl (row_put E k st) = syntax_hl E" by (simp add: row_put_simps)
  show "row (row_put E k st) ! j = row E ! j" using assms(1) by (simp add: row_put_simps)
  show "row_seed (row_put E k st) j = row_seed E j"
  proof (rule row_seed_cong)
    assume "0 < j"
    then have "j - 1 \<noteq> k" using assms(2) by auto
    then show "row (row_put E k st) ! (j - 1) = row E ! (j - 1)" by (simp add: row_put_simps)
  qed
qed

lemma row_put_next_ok:
  assumes "k < length (row E)"
    and "hl_open_comment (row E ! k) = flag_int (in_comment st)"
  shows "row_ok (row_put E k st) (Suc k) = row_ok E (Suc k)"
proof (rule row_ok_cong)
  show "syntax_hl (row_put E k st) = syntax_hl E" by (simp add: row_put_simps)
  show "row (row_put E k st) ! Suc k = row E ! Suc k" by (simp add: row_put_simps)
  show "row_seed (row_put E k st) (Suc k) = row_seed E (Suc k)"
    using assms by (simp add: row_seed_def row_put_def)
qed

text \<open>
  In a buffer numbered by offsets \<^verbatim>\<open>editorUpdateSyntax\<close> on row \<open>k\<close> is the scan of row
  \<open>k\<close>, its result stored, and the call on row \<open>k + 1\<close> when the flag changed.
\<close>

lemma editorUpdateSyntax_unfold:
  assumes "idx_ok E" and "k < length (row E)" and "syntax_hl E = Some syn"
  shows "editorUpdateSyntax E k =
    (case row_scan syn E k of
       Inl f \<Rightarrow> Some (Inl f)
     | Inr st \<Rightarrow>
         if hl_open_comment (row E ! k) \<noteq> flag_int (in_comment st) \<and> Suc k < numrows E
         then editorUpdateSyntax (row_put E k st) (Suc k)
         else Some (Inr (row_put E k st)))"
proof -
  have i: "idx (row E ! k) = int k" using assms(1,2) by (rule idx_okD)
  have n: "nat (int k - 1) = k - 1" "nat (int k + 1) = Suc k" by simp_all
  have c: "(int k + 1 < int (numrows E)) = (Suc k < numrows E)" by auto
  show ?thesis
    apply (subst editorUpdateSyntax.simps)
    using assms(2,3)
    apply (simp only: i n c Let_def row_scan_def row_seed_def row_put_def flag_int_def)
    apply (simp split: sum.split)
    done
qed

lemma editorUpdateSyntax_no_syntax:
  assumes "k < length (row E)" and "syntax_hl E = None"
  shows "editorUpdateSyntax E k =
    Some (Inr (E\<lparr>row := (row E)[k := (row E ! k)
             \<lparr>hl := replicate (length (render (row E ! k))) HL_NORMAL\<rparr>]\<rparr>))"
  using assms by (subst editorUpdateSyntax.simps) (simp add: Let_def)

subsection \<open>The cascade\<close>

text \<open>
  \<^verbatim>\<open>editorUpdateSyntax\<close> on row \<open>k\<close> of a buffer numbered by offsets returns. When it
  returns without a fault the rows before \<open>k\<close> are as they were, row \<open>k\<close> is up to
  date, and the rows after \<open>k\<close> are up to date if they were.
\<close>

lemma editorUpdateSyntax_cascade:
  "idx_ok E \<Longrightarrow> k < length (row E) \<Longrightarrow> syntax_hl E = Some syn \<Longrightarrow>
   \<exists>res. editorUpdateSyntax E k = Some res \<and>
     (\<forall>E'. res = Inr E' \<longrightarrow>
        (\<forall>j<k. row E' ! j = row E ! j) \<and> row_ok E' k \<and>
        (numrows E = length (row E) \<longrightarrow> (\<forall>j. k < j \<and> j < length (row E) \<longrightarrow> row_ok E j)
           \<longrightarrow> (\<forall>j. k < j \<and> j < length (row E) \<longrightarrow> row_ok E' j)))"
proof (induction "length (row E) - k" arbitrary: E k rule: less_induct)
  case less
  note idx = less.prems(1) and k = less.prems(2) and syn = less.prems(3)
  note unfold = editorUpdateSyntax_unfold[OF idx k syn]
  show ?case
  proof (cases "row_scan syn E k")
    case (Inl f)
    then show ?thesis using unfold by simp
  next
    case (Inr st)
    let ?E1 = "row_put E k st"
    let ?changed = "hl_open_comment (row E ! k) \<noteq> flag_int (in_comment st)"
    have ok1: "row_ok ?E1 k" using k syn Inr by (rule row_put_ok)
    have len1: "length (row ?E1) = length (row E)" by (simp add: row_put_simps)
    have unfold': "editorUpdateSyntax E k =
        (if ?changed \<and> Suc k < numrows E then editorUpdateSyntax ?E1 (Suc k)
         else Some (Inr ?E1))"
      using unfold Inr by simp
    show ?thesis
    proof (cases "?changed \<and> Suc k < numrows E")
      case False
      then have res: "editorUpdateSyntax E k = Some (Inr ?E1)"
        by (simp only: unfold' if_False)
      have before: "\<forall>j<k. row ?E1 ! j = row E ! j" by (simp add: row_put_simps)
      have after: "\<forall>j. k < j \<and> j < length (row E) \<longrightarrow> row_ok ?E1 j"
        if n: "numrows E = length (row E)"
          and a: "\<forall>j. k < j \<and> j < length (row E) \<longrightarrow> row_ok E j"
      proof (intro allI impI)
        fix j assume j: "k < j \<and> j < length (row E)"
        show "row_ok ?E1 j"
        proof (cases "j = Suc k")
          case True
          then have "Suc k < numrows E" using j n by simp
          then have "\<not> ?changed" using False by simp
          then have "row_ok ?E1 (Suc k) = row_ok E (Suc k)"
            using k by (simp add: row_put_next_ok)
          then show ?thesis using a j True by simp
        next
          case False
          then have "row_ok ?E1 j = row_ok E j" using j by (simp add: row_put_other_ok)
          then show ?thesis using a j by simp
        qed
      qed
      show ?thesis using res before ok1 after by simp
    next
      case True
      then have res: "editorUpdateSyntax E k = editorUpdateSyntax ?E1 (Suc k)"
        using unfold' by simp
      show ?thesis
      proof (cases "Suc k < length (row E)")
        case False
        then have "editorUpdateSyntax ?E1 (Suc k) = Some (Inl OutOfBounds)"
          by (subst editorUpdateSyntax.simps) (simp add: len1)
        then show ?thesis using res by simp
      next
        case sk: True
        have m: "length (row ?E1) - Suc k < length (row E) - k" using sk by (simp add: len1)
        have idx1: "idx_ok ?E1" using idx by (rule row_put_idx_ok)
        have sk1: "Suc k < length (row ?E1)" using sk by (simp add: len1)
        have syn1: "syntax_hl ?E1 = Some syn" using syn by (simp add: row_put_simps)
        from less.hyps[OF m idx1 sk1 syn1]
        obtain res' where r': "editorUpdateSyntax ?E1 (Suc k) = Some res'"
          and p: "\<And>E'. res' = Inr E' \<Longrightarrow>
            (\<forall>j<Suc k. row E' ! j = row ?E1 ! j) \<and> row_ok E' (Suc k) \<and>
            (numrows ?E1 = length (row ?E1) \<longrightarrow>
               (\<forall>j. Suc k < j \<and> j < length (row ?E1) \<longrightarrow> row_ok ?E1 j) \<longrightarrow>
               (\<forall>j. Suc k < j \<and> j < length (row ?E1) \<longrightarrow> row_ok E' j))"
          by blast
        have "(\<forall>j<k. row E' ! j = row E ! j) \<and> row_ok E' k \<and>
            (numrows E = length (row E) \<longrightarrow>
               (\<forall>j. k < j \<and> j < length (row E) \<longrightarrow> row_ok E j) \<longrightarrow>
               (\<forall>j. k < j \<and> j < length (row E) \<longrightarrow> row_ok E' j))"
          if e: "res' = Inr E'" for E'
        proof -
          note q = p[OF e]
          from q have same: "\<And>j. j < Suc k \<Longrightarrow> row E' ! j = row ?E1 ! j" by simp
          have st: "strip_hl E' = strip_hl ?E1"
            using r' e by (simp add: editorUpdateSyntax_strip)
          have syn': "syntax_hl E' = syntax_hl ?E1" using strip_hl_fields[OF st] by simp
          have 1: "\<forall>j<k. row E' ! j = row E ! j"
            using same by (simp add: row_put_simps)
          have 2: "row_ok E' k"
          proof -
            have "row_ok E' k = row_ok ?E1 k"
            proof (rule row_ok_cong[OF syn'])
              show "row E' ! k = row ?E1 ! k" using same by simp
              show "row_seed E' k = row_seed ?E1 k"
                by (rule row_seed_cong) (simp add: same)
            qed
            then show ?thesis using ok1 by simp
          qed
          have 3: "\<forall>j. k < j \<and> j < length (row E) \<longrightarrow> row_ok E' j"
            if n: "numrows E = length (row E)"
              and a: "\<forall>j. k < j \<and> j < length (row E) \<longrightarrow> row_ok E j"
          proof -
            have n1: "numrows ?E1 = length (row ?E1)" using n by (simp add: row_put_simps)
            have a1: "\<forall>j. Suc k < j \<and> j < length (row ?E1) \<longrightarrow> row_ok ?E1 j"
            proof (intro allI impI)
              fix j assume j: "Suc k < j \<and> j < length (row ?E1)"
              then have "row_ok ?E1 j = row_ok E j" by (simp add: row_put_other_ok)
              then show "row_ok ?E1 j" using a j by (simp add: len1)
            qed
            from q n1 a1 have rest: "\<forall>j. Suc k < j \<and> j < length (row ?E1) \<longrightarrow> row_ok E' j"
              by blast
            show ?thesis
            proof (intro allI impI)
              fix j assume j: "k < j \<and> j < length (row E)"
              show "row_ok E' j"
              proof (cases "j = Suc k")
                case True
                then show ?thesis using q by simp
              next
                case False
                then show ?thesis using rest j by (simp add: len1)
              qed
            qed
          qed
          from 1 2 3 show ?thesis by blast
        qed
        then show ?thesis using res r' by simp
      qed
    qed
  qed
qed

lemma editorUpdateSyntax_total:
  assumes "idx_ok E"
  shows "\<exists>res. editorUpdateSyntax E k = Some res"
proof (cases "k < length (row E)")
  case False
  then show ?thesis by (subst editorUpdateSyntax.simps) simp
next
  case True
  show ?thesis
  proof (cases "syntax_hl E")
    case None
    then show ?thesis using editorUpdateSyntax_no_syntax[OF True] by simp
  next
    case (Some syn)
    from editorUpdateSyntax_cascade[OF assms True Some] show ?thesis by blast
  qed
qed

text \<open>
  When every row but \<open>k\<close> is up to date in a buffer with \<^verbatim>\<open>numrows\<close> rows, all rows are
  after \<^verbatim>\<open>editorUpdateSyntax\<close> on row \<open>k\<close>.
\<close>

lemma editorUpdateSyntax_consistent:
  assumes idx: "idx_ok E" and n: "numrows E = length (row E)" and k: "k < length (row E)"
    and others: "\<forall>j<length (row E). j \<noteq> k \<longrightarrow> row_ok E j"
    and res: "editorUpdateSyntax E k = Some (Inr E')"
  shows "hl_consistent E'"
proof -
  have st: "strip_hl E' = strip_hl E" using res by (rule editorUpdateSyntax_strip)
  have len: "length (row E') = length (row E)" and syn': "syntax_hl E' = syntax_hl E"
    using strip_hl_fields[OF st] by simp_all
  have "row_ok E' j" if j: "j < length (row E)" for j
  proof (cases "syntax_hl E")
    case None
    have E': "E' = E\<lparr>row := (row E)[k := (row E ! k)
             \<lparr>hl := replicate (length (render (row E ! k))) HL_NORMAL\<rparr>]\<rparr>"
      using res editorUpdateSyntax_no_syntax[OF k None] by simp
    show ?thesis
    proof (cases "j = k")
      case True
      then show ?thesis using k None by (simp add: E' row_ok_def)
    next
      case False
      then have "row_ok E j" using others j by simp
      then show ?thesis using False None by (simp add: E' row_ok_def)
    qed
  next
    case (Some syn)
    from editorUpdateSyntax_cascade[OF idx k Some] res
    have before: "\<And>i. i < k \<Longrightarrow> row E' ! i = row E ! i"
      and at: "row_ok E' k"
      and after: "(\<forall>i. k < i \<and> i < length (row E) \<longrightarrow> row_ok E i)
                  \<Longrightarrow> (\<forall>i. k < i \<and> i < length (row E) \<longrightarrow> row_ok E' i)"
      using n by auto
    consider "j < k" | "j = k" | "k < j" by linarith
    then show ?thesis
    proof cases
      case 1
      have "row_ok E' j = row_ok E j"
      proof (rule row_ok_cong[OF syn'])
        show "row E' ! j = row E ! j" using before 1 by simp
        show "row_seed E' j = row_seed E j"
          by (rule row_seed_cong) (use before 1 in simp)
      qed
      then show ?thesis using others j 1 by simp
    next
      case 2
      then show ?thesis using at by simp
    next
      case 3
      have "\<forall>i. k < i \<and> i < length (row E) \<longrightarrow> row_ok E i" using others by simp
      from after[OF this] show ?thesis using 3 j by simp
    qed
  qed
  then show ?thesis by (simp add: hl_consistent_iff len)
qed

text \<open>On a buffer that is up to date \<^verbatim>\<open>editorUpdateSyntax\<close> changes nothing.\<close>

lemma row_put_same:
  assumes "k < length (row E)" and "hl (row E ! k) = hls st"
    and "hl_open_comment (row E ! k) = flag_int (in_comment st)"
  shows "row_put E k st = E"
proof -
  have "(row E ! k)\<lparr>hl := hls st, hl_open_comment := flag_int (in_comment st)\<rparr> = row E ! k"
    using assms(2,3) by (metis erow.surjective erow.update_convs(5) erow.update_convs(6))
  then show ?thesis by (simp add: row_put_def)
qed

lemma editorUpdateSyntax_fixpoint:
  assumes idx: "idx_ok E" and k: "k < length (row E)" and ok: "row_ok E k"
  shows "editorUpdateSyntax E k = Some (Inr E)"
proof (cases "syntax_hl E")
  case None
  have "hl (row E ! k) = replicate (length (render (row E ! k))) HL_NORMAL"
    using ok None by (simp add: row_ok_def)
  then have "(row E ! k)\<lparr>hl := replicate (length (render (row E ! k))) HL_NORMAL\<rparr> = row E ! k"
    by (metis erow.surjective erow.update_convs(5))
  then show ?thesis using editorUpdateSyntax_no_syntax[OF k None] by simp
next
  case (Some syn)
  from ok Some obtain st where st: "row_scan syn E k = Inr st"
    and h: "hl (row E ! k) = hls st"
    and c: "hl_open_comment (row E ! k) = flag_int (in_comment st)"
    by (auto simp: row_ok_def split: sum.splits)
  have "row_put E k st = E" using k h c by (rule row_put_same)
  then show ?thesis using editorUpdateSyntax_unfold[OF idx k Some] st c by simp
qed

lemma highlight_all_from_fixpoint:
  assumes idx: "idx_ok E" and n: "numrows E = length (row E)" and ok: "hl_consistent E"
  shows "highlight_all_from E i = Some (Inr E)"
proof (induction "numrows E - i" arbitrary: i)
  case 0
  then show ?case by (subst highlight_all_from.simps) simp
next
  case (Suc m)
  then have i: "i < numrows E" by simp
  then have "row_ok E i" using ok n by (simp add: hl_consistent_iff)
  then have u: "editorUpdateSyntax E i = Some (Inr E)"
    using idx i n by (simp add: editorUpdateSyntax_fixpoint)
  have "m = numrows E - Suc i" using Suc.hyps(2) by simp
  from Suc.hyps(1)[OF this] show ?case
    using i u by (subst highlight_all_from.simps) simp
qed

subsection \<open>Row updates keep the buffer up to date\<close>

text \<open>
  A buffer is in order when its rows are numbered by their offsets, the array holds
  \<^verbatim>\<open>numrows\<close> rows and the highlighting of every row is up to date.
\<close>

definition buffer_ok :: "editorConfig \<Rightarrow> bool" where
  "buffer_ok E = (idx_ok E \<and> numrows E = length (row E) \<and> hl_consistent E)"

lemma strip_hl_render:
  "strip_hl E' = strip_hl E \<Longrightarrow> map render (row E') = map render (row E)"
  using strip_hl_fields by blast

lemma strip_hl_chars:
  "strip_hl E' = strip_hl E \<Longrightarrow> map chars (row E') = map chars (row E)"
  using strip_hl_fields by blast

lemma strip_hl_idx:
  "strip_hl E' = strip_hl E \<Longrightarrow> map idx (row E') = map idx (row E)"
  using strip_hl_fields by blast

lemma strip_hl_length:
  "strip_hl E' = strip_hl E \<Longrightarrow> length (row E') = length (row E)"
  using strip_hl_fields by blast

lemma strip_hl_scalars:
  "strip_hl E' = strip_hl E \<Longrightarrow>
     numrows E' = numrows E \<and> tab_stop E' = tab_stop E \<and> syntax_hl E' = syntax_hl E
     \<and> dirty E' = dirty E \<and> cx E' = cx E \<and> cy E' = cy E \<and> rowoff E' = rowoff E"
  using strip_hl_fields by blast

lemma strip_hl_render_pre:
  "strip_hl E' = strip_hl E \<Longrightarrow> map render_pre (row E') = map render_pre (row E)"
  using strip_hl_fields by blast

lemma strip_hl_idx_ok:
  assumes "strip_hl E' = strip_hl E"
  shows "idx_ok E' = idx_ok E"
  using strip_hl_idx[OF assms] strip_hl_length[OF assms] by (simp add: idx_ok_def)

lemma row_replace_idx_ok:
  assumes "k < length (row E)" and "idx r' = idx (row E ! k)"
  shows "idx_ok (E\<lparr>row := (row E)[k := r']\<rparr>) = idx_ok E"
proof -
  have "map idx ((row E)[k := r']) = map idx (row E)"
    using assms by (simp add: map_update list_update_same_conv)
  then show ?thesis by (simp add: idx_ok_def)
qed

lemma row_replace_ok:
  assumes "j \<noteq> k" and "hl_open_comment r' = hl_open_comment (row E ! k)"
  shows "row_ok (E\<lparr>row := (row E)[k := r']\<rparr>) j = row_ok E j"
proof (rule row_ok_cong)
  show "syntax_hl (E\<lparr>row := (row E)[k := r']\<rparr>) = syntax_hl E" by simp
  show "row (E\<lparr>row := (row E)[k := r']\<rparr>) ! j = row E ! j" using assms(1) by simp
  show "row_seed (E\<lparr>row := (row E)[k := r']\<rparr>) j = row_seed E j"
  proof (cases "0 < j \<and> j - 1 = k \<and> k < length (row E)")
    case True
    then show ?thesis using assms(2) by (simp add: row_seed_def)
  next
    case False
    then have "0 < j \<Longrightarrow> (row E)[k := r'] ! (j - 1) = row E ! (j - 1)"
      by (cases "k < length (row E)") (auto simp: list_update_beyond)
    then show ?thesis by (auto simp: row_seed_def)
  qed
qed

lemma editorUpdateRow_total:
  assumes "idx_ok E"
  shows "\<exists>res. editorUpdateRow E k g = Some res"
proof (cases "k < length (row E)")
  case False
  then show ?thesis by (simp add: editorUpdateRow_def)
next
  case True
  show ?thesis
  proof (cases "render_loop (tab_stop E) (chars (row E ! k)) []")
    case (Inl f)
    then show ?thesis using True by (simp add: editorUpdateRow_def)
  next
    case (Inr rd)
    let ?E1 = "E\<lparr>row := (row E)[k := (row E ! k)\<lparr>render := rd, render_pre := g\<rparr>]\<rparr>"
    have "idx_ok ?E1"
      using assms row_replace_idx_ok[OF True, of "(row E ! k)\<lparr>render := rd, render_pre := g\<rparr>"]
      by simp
    from editorUpdateSyntax_total[OF this, of k] show ?thesis
      using True Inr by (simp add: editorUpdateRow_def)
  qed
qed

text \<open>\<^verbatim>\<open>editorUpdateRow\<close> changes the rendering and the highlighting only.\<close>

lemma editorUpdateRow_frame:
  assumes "editorUpdateRow E k g = Some (Inr E')"
  shows "map chars (row E') = map chars (row E) \<and> map idx (row E') = map idx (row E)
     \<and> length (row E') = length (row E) \<and> numrows E' = numrows E \<and> dirty E' = dirty E
     \<and> tab_stop E' = tab_stop E \<and> syntax_hl E' = syntax_hl E"
proof -
  from assms have k: "k < length (row E)"
    by (auto simp: editorUpdateRow_def split: if_splits)
  from assms k obtain rd where
    u: "editorUpdateSyntax (E\<lparr>row := (row E)[k := (row E ! k)\<lparr>render := rd, render_pre := g\<rparr>]\<rparr>) k
        = Some (Inr E')"
    by (auto simp: editorUpdateRow_def Let_def split: sum.splits)
  let ?E1 = "E\<lparr>row := (row E)[k := (row E ! k)\<lparr>render := rd, render_pre := g\<rparr>]\<rparr>"
  have st: "strip_hl E' = strip_hl ?E1" using u by (rule editorUpdateSyntax_strip)
  have c: "map chars (row ?E1) = map chars (row E)"
    using k by (simp add: map_update list_update_same_conv)
  have i: "map idx (row ?E1) = map idx (row E)"
    using k by (simp add: map_update list_update_same_conv)
  have "map chars (row E') = map chars (row ?E1)" using st by (rule strip_hl_chars)
  moreover have "map idx (row E') = map idx (row ?E1)" using st by (rule strip_hl_idx)
  moreover have "length (row E') = length (row ?E1)" using st by (rule strip_hl_length)
  ultimately show ?thesis using c i strip_hl_scalars[OF st] by simp
qed

subsection \<open>Rows the highlighter stays within\<close>

text \<open>
  The scan of a row leaves the row when the backward walk of the function-name rule
  finds no space, neither in the row from the name back nor in the byte in front of the
  row. \<open>scan_safe\<close> says of a rendered row and the byte in front of it that the scan
  returns, whether it starts outside or inside a block comment;
  \<open>row_safe\<close> says so of a row of the buffer, and \<open>text_safe\<close> of a text that is still
  to be rendered, whose rendering must return as well (a tab with the tab width 0
  stops it).
\<close>

definition scan_safe :: "editorSyntax option \<Rightarrow> string \<Rightarrow> char \<Rightarrow> bool" where
  "scan_safe syn r pre =
     (case syn of
        None \<Rightarrow> True
      | Some s \<Rightarrow> \<not> isl (hl_loop s r pre (hl_init (length r) False))
                  \<and> \<not> isl (hl_loop s r pre (hl_init (length r) True)))"

definition row_safe :: "editorConfig \<Rightarrow> erow \<Rightarrow> bool" where
  "row_safe E r = scan_safe (syntax_hl E) (render r) (render_pre r)"

definition text_safe :: "editorConfig \<Rightarrow> string \<Rightarrow> char \<Rightarrow> bool" where
  "text_safe E s g =
     (case render_loop (tab_stop E) s [] of
        Inl f \<Rightarrow> False
      | Inr rd \<Rightarrow> scan_safe (syntax_hl E) rd g)"

text \<open>
  The scan can leave a row only at a letter that stands in front of an opening
  parenthesis: a row without \<open>(\<close> is safe, and so is every row without a syntax.
\<close>

lemma hl_loop_no_paren:
  "CHR ''('' \<notin> set r \<Longrightarrow> \<exists>st'. hl_loop syn r pre st = Inr st'"
proof (induction syn r pre st rule: hl_loop.induct)
  case (1 syn r pre st)
  have "cchar r (pos st + 1) \<noteq> CHR ''(''"
  proof (cases "pos st + 1 < length r")
    case True
    then have "r ! (pos st + 1) \<in> set r" by (rule nth_mem)
    then have "r ! (pos st + 1) \<noteq> CHR ''(''" using "1.prems" by metis
    then show ?thesis using True by (simp add: cchar_def)
  next
    case False
    then show ?thesis by (simp add: cchar_def)
  qed
  then have "hl_fn_rule syn r pre st = Inr (hls st)" by (simp add: hl_fn_rule_def)
  then obtain st1 where s: "hl_step syn r pre st = Inr st1" by (simp add: hl_step_def)
  show ?case
  proof (cases "pos st < length r")
    case True
    from "1.IH"[OF True s "1.prems"] show ?thesis
      using True s by (subst hl_loop.simps) simp
  next
    case False
    then show ?thesis by (subst hl_loop.simps) simp
  qed
qed

lemma scan_safe_no_paren: "CHR ''('' \<notin> set r \<Longrightarrow> scan_safe syn r pre"
proof (cases syn)
  case None
  then show ?thesis by (simp add: scan_safe_def)
next
  case (Some s)
  assume a: "CHR ''('' \<notin> set r"
  have "\<not> isl (hl_loop s r pre st)" for st
    using hl_loop_no_paren[OF a, of s pre st] by auto
  then show ?thesis using Some by (simp add: scan_safe_def)
qed

lemma row_safe_cong:
  "syntax_hl E' = syntax_hl E \<Longrightarrow> render r' = render r \<Longrightarrow> render_pre r' = render_pre r
   \<Longrightarrow> row_safe E' r' = row_safe E r"
  by (simp add: row_safe_def)

lemma text_safe_cong:
  assumes "syntax_hl E' = syntax_hl E" and "tab_stop E' = tab_stop E"
  shows "text_safe E' s g = text_safe E s g"
  unfolding text_safe_def assms by (rule refl)

lemma row_scan_safe:
  assumes "syntax_hl E = Some syn" and "row_safe E (row E ! k)"
  shows "\<exists>st. row_scan syn E k = Inr st"
proof -
  have a: "\<not> isl (hl_loop syn (render (row E ! k)) (render_pre (row E ! k))
                 (hl_init (length (render (row E ! k))) b))" for b
    using assms by (cases b) (simp_all add: row_safe_def scan_safe_def)
  have "\<not> isl (row_scan syn E k)" unfolding row_scan_def by (rule a)
  then show ?thesis by (cases "row_scan syn E k") simp_all
qed

text \<open>
  In a buffer numbered by offsets whose array holds at least \<^verbatim>\<open>numrows\<close> rows,
  \<^verbatim>\<open>editorUpdateSyntax\<close> on row \<open>k\<close> returns a state when the highlighter stays within
  the rows from \<open>k\<close> on.
\<close>

lemma editorUpdateSyntax_safe:
  "idx_ok E \<Longrightarrow> k < length (row E) \<Longrightarrow> numrows E \<le> length (row E)
   \<Longrightarrow> \<forall>j. k \<le> j \<and> j < length (row E) \<longrightarrow> row_safe E (row E ! j)
   \<Longrightarrow> \<exists>E'. editorUpdateSyntax E k = Some (Inr E')"
proof (induction "length (row E) - k" arbitrary: E k rule: less_induct)
  case less
  note idx = less.prems(1) and k = less.prems(2) and n = less.prems(3) and safe = less.prems(4)
  show ?case
  proof (cases "syntax_hl E")
    case None
    then show ?thesis using editorUpdateSyntax_no_syntax[OF k None] by simp
  next
    case (Some syn)
    have "row_safe E (row E ! k)" using safe k by simp
    from row_scan_safe[OF Some this] obtain st where st: "row_scan syn E k = Inr st" by blast
    let ?E1 = "row_put E k st"
    let ?changed = "hl_open_comment (row E ! k) \<noteq> flag_int (in_comment st)"
    have unfold: "editorUpdateSyntax E k =
        (if ?changed \<and> Suc k < numrows E then editorUpdateSyntax ?E1 (Suc k)
         else Some (Inr ?E1))"
      using editorUpdateSyntax_unfold[OF idx k Some] st by simp
    show ?thesis
    proof (cases "?changed \<and> Suc k < numrows E")
      case False
      then have "editorUpdateSyntax E k = Some (Inr ?E1)" by (simp only: unfold if_False)
      then show ?thesis by blast
    next
      case True
      then have res: "editorUpdateSyntax E k = editorUpdateSyntax ?E1 (Suc k)"
        using unfold by simp
      have len1: "length (row ?E1) = length (row E)" by (simp add: row_put_simps)
      have sk: "Suc k < length (row ?E1)" using True n by (simp add: len1)
      have m: "length (row ?E1) - Suc k < length (row E) - k" using sk by (simp add: len1)
      have idx1: "idx_ok ?E1" using idx by (rule row_put_idx_ok)
      have n1: "numrows ?E1 \<le> length (row ?E1)" using n by (simp add: row_put_simps)
      have safe1: "\<forall>j. Suc k \<le> j \<and> j < length (row ?E1) \<longrightarrow> row_safe ?E1 (row ?E1 ! j)"
      proof (intro allI impI)
        fix j assume j: "Suc k \<le> j \<and> j < length (row ?E1)"
        then have r: "row ?E1 ! j = row E ! j" by (simp add: row_put_simps)
        have "row_safe ?E1 (row E ! j) = row_safe E (row E ! j)"
          by (rule row_safe_cong) (simp_all add: row_put_simps)
        then show "row_safe ?E1 (row ?E1 ! j)" using safe j r by (simp add: len1)
      qed
      from less.hyps[OF m idx1 sk n1 safe1] show ?thesis using res by simp
    qed
  qed
qed

text \<open>
  So does \<^verbatim>\<open>editorUpdateRow\<close> on row \<open>k\<close>, when the text of row \<open>k\<close> renders and the
  highlighter stays within its rendering and within the rows after \<open>k\<close>.
\<close>

lemma editorUpdateRow_safe:
  assumes idx: "idx_ok E" and k: "k < length (row E)" and n: "numrows E \<le> length (row E)"
    and t: "text_safe E (chars (row E ! k)) g"
    and later: "\<forall>j. k < j \<and> j < length (row E) \<longrightarrow> row_safe E (row E ! j)"
  shows "\<exists>E'. editorUpdateRow E k g = Some (Inr E')"
proof -
  from t obtain rd where rd: "render_loop (tab_stop E) (chars (row E ! k)) [] = Inr rd"
    and s: "scan_safe (syntax_hl E) rd g"
    by (auto simp: text_safe_def split: sum.splits)
  let ?r1 = "(row E ! k)\<lparr>render := rd, render_pre := g\<rparr>"
  let ?E1 = "E\<lparr>row := (row E)[k := ?r1]\<rparr>"
  have upd: "editorUpdateRow E k g = editorUpdateSyntax ?E1 k"
    using k rd by (simp add: editorUpdateRow_def)
  have idx1: "idx_ok ?E1" using idx row_replace_idx_ok[OF k, of ?r1] by simp
  have k1: "k < length (row ?E1)" using k by simp
  have n1: "numrows ?E1 \<le> length (row ?E1)" using n by simp
  have safe1: "\<forall>j. k \<le> j \<and> j < length (row ?E1) \<longrightarrow> row_safe ?E1 (row ?E1 ! j)"
  proof (intro allI impI)
    fix j assume j: "k \<le> j \<and> j < length (row ?E1)"
    show "row_safe ?E1 (row ?E1 ! j)"
    proof (cases "j = k")
      case True
      then show ?thesis using k s by (simp add: row_safe_def)
    next
      case False
      then have "row_safe E (row E ! j)" using later j by simp
      then show ?thesis using False by (simp add: row_safe_def)
    qed
  qed
  from editorUpdateSyntax_safe[OF idx1 k1 n1 safe1] show ?thesis using upd by simp
qed

text \<open>
  After \<^verbatim>\<open>editorUpdateSyntax\<close> on row \<open>k\<close> the rows before \<open>k\<close> are as they were and
  row \<open>k\<close> is up to date, with or without a syntax.
\<close>

lemma editorUpdateSyntax_row:
  assumes idx: "idx_ok E" and k: "k < length (row E)"
    and res: "editorUpdateSyntax E k = Some (Inr E')"
  shows "(\<forall>j<k. row E' ! j = row E ! j) \<and> row_ok E' k"
proof (cases "syntax_hl E")
  case None
  have E': "E' = E\<lparr>row := (row E)[k := (row E ! k)
             \<lparr>hl := replicate (length (render (row E ! k))) HL_NORMAL\<rparr>]\<rparr>"
    using res editorUpdateSyntax_no_syntax[OF k None] by simp
  show ?thesis using k None by (simp add: E' row_ok_def)
next
  case (Some syn)
  from editorUpdateSyntax_cascade[OF idx k Some] res show ?thesis by auto
qed

text \<open>
  Row \<open>k\<close> is replaced by a row \<open>r'\<close> with new characters and \<^verbatim>\<open>editorUpdateRow\<close> runs
  on it: the step every edit of a row makes. It returns. When it returns a state, the
  buffer has the same rows but for the characters of row \<open>k\<close>, the rendering and the
  highlighting of row \<open>k\<close> are derived anew, and a buffer whose highlighting was up to
  date is up to date again. It returns a state when the highlighter stays within the
  new row and the rows after it.
\<close>

lemma edit_row:
  assumes idx: "idx_ok E" and n: "numrows E = length (row E)" and k: "k < length (row E)"
    and i': "idx r' = idx (row E ! k)"
    and c': "hl_open_comment r' = hl_open_comment (row E ! k)"
  shows "\<exists>res. editorUpdateRow (E\<lparr>row := (row E)[k := r']\<rparr>) k g = Some res
     \<and> (\<forall>E'. res = Inr E' \<longrightarrow>
          idx_ok E' \<and> numrows E' = length (row E') \<and> length (row E') = length (row E)
          \<and> dirty E' = dirty E \<and> syntax_hl E' = syntax_hl E \<and> tab_stop E' = tab_stop E
          \<and> map chars (row E') = (map chars (row E))[k := chars r']
          \<and> render_loop (tab_stop E) (chars r') [] = Inr (render (row E' ! k))
          \<and> map render (row E') = (map render (row E))[k := render (row E' ! k)]
          \<and> map render_pre (row E') = (map render_pre (row E))[k := g]
          \<and> row_ok E' k
          \<and> (hl_consistent E \<longrightarrow> hl_consistent E'))
     \<and> (text_safe E (chars r') g
          \<and> (\<forall>j. k < j \<and> j < length (row E) \<longrightarrow> row_safe E (row E ! j))
          \<longrightarrow> (\<exists>E'. res = Inr E'))"
proof -
  let ?E0 = "E\<lparr>row := (row E)[k := r']\<rparr>"
  have r0: "row ?E0 ! k = r'" using k by simp
  have idx0: "idx_ok ?E0" using idx row_replace_idx_ok[OF k i'] by simp
  have k0: "k < length (row ?E0)" using k by simp
  from editorUpdateRow_total[OF idx0, of k g]
  obtain res where res: "editorUpdateRow ?E0 k g = Some res" by blast
  have main: "idx_ok E' \<and> numrows E' = length (row E') \<and> length (row E') = length (row E)
          \<and> dirty E' = dirty E \<and> syntax_hl E' = syntax_hl E \<and> tab_stop E' = tab_stop E
          \<and> map chars (row E') = (map chars (row E))[k := chars r']
          \<and> render_loop (tab_stop E) (chars r') [] = Inr (render (row E' ! k))
          \<and> map render (row E') = (map render (row E))[k := render (row E' ! k)]
          \<and> map render_pre (row E') = (map render_pre (row E))[k := g]
          \<and> row_ok E' k
          \<and> (hl_consistent E \<longrightarrow> hl_consistent E')"
    if e: "res = Inr E'" for E'
  proof -
    have u: "editorUpdateRow ?E0 k g = Some (Inr E')" using res e by simp
    then obtain rd where rd: "render_loop (tab_stop E) (chars r') [] = Inr rd"
      and r: "editorUpdateSyntax (?E0\<lparr>row := (row ?E0)[k := (row ?E0 ! k)\<lparr>render := rd, render_pre := g\<rparr>]\<rparr>) k
              = Some (Inr E')"
      using k by (auto simp: editorUpdateRow_def Let_def split: sum.splits)
    let ?r1 = "r'\<lparr>render := rd, render_pre := g\<rparr>"
    let ?E1 = "E\<lparr>row := (row E)[k := ?r1]\<rparr>"
    have e1: "?E0\<lparr>row := (row ?E0)[k := (row ?E0 ! k)\<lparr>render := rd, render_pre := g\<rparr>]\<rparr> = ?E1"
      using k by simp
    have r1: "editorUpdateSyntax ?E1 k = Some (Inr E')" using r by (simp only: e1)
    have idx1: "idx_ok ?E1" using idx row_replace_idx_ok[OF k, of ?r1] i' by simp
    have n1: "numrows ?E1 = length (row ?E1)" using n by simp
    have k1: "k < length (row ?E1)" using k by simp
    have st: "strip_hl E' = strip_hl ?E1" using r1 by (rule editorUpdateSyntax_strip)
    note sc = strip_hl_scalars[OF st]
    have len': "length (row E') = length (row E)" using strip_hl_length[OF st] by simp
    have "map idx (row E') = map idx (row ?E1)" using st by (rule strip_hl_idx)
    then have idx': "idx_ok E'" using idx1 len' by (simp add: idx_ok_def)
    have n': "numrows E' = length (row E')" using sc n len' by simp
    have "map chars (row E') = map chars (row ?E1)" using st by (rule strip_hl_chars)
    then have ch: "map chars (row E') = (map chars (row E))[k := chars r']"
      by (simp add: map_update)
    have lk: "k < length (row E')" using len' k by simp
    have mr: "map render (row E') = map render (row ?E1)" using st by (rule strip_hl_render)
    have "render (row E' ! k) = map render (row E') ! k" using lk by (simp only: nth_map)
    also have "\<dots> = map render (row ?E1) ! k" by (simp only: mr)
    also have "\<dots> = rd" using k by simp
    finally have rdk: "render (row E' ! k) = rd" .
    have mr': "map render (row E') = (map render (row E))[k := render (row E' ! k)]"
      using mr rdk by (simp add: map_update)
    have "map render_pre (row E') = map render_pre (row ?E1)" using st by (rule strip_hl_render_pre)
    then have mp': "map render_pre (row E') = (map render_pre (row E))[k := g]"
      by (simp add: map_update)
    have okk: "row_ok E' k" using editorUpdateSyntax_row[OF idx1 k1 r1] by simp
    have con': "hl_consistent E'" if con: "hl_consistent E"
    proof -
      have others: "\<forall>j<length (row ?E1). j \<noteq> k \<longrightarrow> row_ok ?E1 j"
      proof (intro allI impI)
        fix j assume j: "j < length (row ?E1)" and jk: "j \<noteq> k"
        have "row_ok ?E1 j = row_ok E j" using jk by (rule row_replace_ok) (simp add: c')
        then show "row_ok ?E1 j" using con j by (simp add: hl_consistent_iff)
      qed
      show ?thesis using editorUpdateSyntax_consistent[OF idx1 n1 k1 others r1] .
    qed
    show ?thesis using idx' n' len' sc ch rd rdk mr' mp' okk con' by simp
  qed
  have safe: "\<exists>E'. res = Inr E'"
    if t: "text_safe E (chars r') g"
      and later: "\<forall>j. k < j \<and> j < length (row E) \<longrightarrow> row_safe E (row E ! j)"
  proof -
    have n0: "numrows ?E0 \<le> length (row ?E0)" using n by simp
    have "text_safe ?E0 (chars r') g = text_safe E (chars r') g"
      by (rule text_safe_cong) simp_all
    then have t0: "text_safe ?E0 (chars (row ?E0 ! k)) g" using t by (simp only: r0)
    have later0: "\<forall>j. k < j \<and> j < length (row ?E0) \<longrightarrow> row_safe ?E0 (row ?E0 ! j)"
    proof (intro allI impI)
      fix j assume j: "k < j \<and> j < length (row ?E0)"
      then have "row_safe E (row E ! j)" using later by simp
      then show "row_safe ?E0 (row ?E0 ! j)" using j by (simp add: row_safe_def)
    qed
    from editorUpdateRow_safe[OF idx0 k0 n0 t0 later0] show ?thesis using res by simp
  qed
  from res main safe show ?thesis by blast
qed


text \<open>
  \<open>rows_safe\<close>: the highlighter stays within every row of the buffer. The property
  depends on the text of the buffer only, and with it the pass over all rows returns a
  state.
\<close>

definition rows_safe :: "editorConfig \<Rightarrow> bool" where
  "rows_safe E = list_all (row_safe E) (row E)"

lemma rows_safe_iff:
  "rows_safe E = (\<forall>j<length (row E).
      scan_safe (syntax_hl E) (map render (row E) ! j) (map render_pre (row E) ! j))"
  by (auto simp: rows_safe_def list_all_length row_safe_def)

lemma rows_safe_strip:
  assumes "strip_hl E' = strip_hl E"
  shows "rows_safe E' = rows_safe E"
  unfolding rows_safe_iff
  using strip_hl_render[OF assms] strip_hl_render_pre[OF assms] strip_hl_length[OF assms]
    strip_hl_scalars[OF assms]
  by simp

lemma rows_safeD: "rows_safe E \<Longrightarrow> j < length (row E) \<Longrightarrow> row_safe E (row E ! j)"
  by (simp add: rows_safe_def list_all_length)

lemma highlight_all_from_safe:
  "idx_ok E \<Longrightarrow> numrows E = length (row E) \<Longrightarrow> rows_safe E
   \<Longrightarrow> \<exists>E''. highlight_all_from E i = Some (Inr E'')"
proof (induction "numrows E - i" arbitrary: E i)
  case 0
  then show ?case by (subst highlight_all_from.simps) simp
next
  case (Suc m)
  note idx = Suc.prems(1) and n = Suc.prems(2) and safe = Suc.prems(3)
  have i: "i < numrows E" using Suc.hyps(2) by simp
  then have il: "i < length (row E)" using n by simp
  have nl: "numrows E \<le> length (row E)" using n by simp
  have "\<forall>j. i \<le> j \<and> j < length (row E) \<longrightarrow> row_safe E (row E ! j)"
    using safe by (simp add: rows_safeD)
  from editorUpdateSyntax_safe[OF idx il nl this]
  obtain E1 where u: "editorUpdateSyntax E i = Some (Inr E1)" by blast
  have st: "strip_hl E1 = strip_hl E" using u by (rule editorUpdateSyntax_strip)
  have idx1: "idx_ok E1" using strip_hl_idx_ok[OF st] idx by simp
  have n1: "numrows E1 = length (row E1)"
    using strip_hl_scalars[OF st] strip_hl_length[OF st] n by simp
  have safe1: "rows_safe E1" using rows_safe_strip[OF st] safe by simp
  have m: "m = numrows E1 - Suc i" using Suc.hyps(2) strip_hl_scalars[OF st] by simp
  from Suc.hyps(1)[OF m idx1 n1 safe1]
  obtain E'' where "highlight_all_from E1 (Suc i) = Some (Inr E'')" by blast
  then show ?case using i u by (subst highlight_all_from.simps) simp
qed

subsection \<open>Sequences of edits\<close>

text \<open>
  The edits of a row that go through \<^verbatim>\<open>editorUpdateRow\<close>: \<^verbatim>\<open>editorRowInsertChar\<close>,
  \<^verbatim>\<open>editorRowDelChar\<close> and \<^verbatim>\<open>editorRowAppendString\<close> on row \<open>k\<close>, each with the byte found
  in front of the new \<^verbatim>\<open>render\<close>.
\<close>

datatype edit =
  InsertChar nat int char char
  | DelChar nat int char
  | AppendString nat string char

fun apply_edit :: "editorConfig \<Rightarrow> edit \<Rightarrow> (fault + editorConfig) option" where
  "apply_edit E (InsertChar k at c g) = editorRowInsertChar E k at c g"
| "apply_edit E (DelChar k at g) = editorRowDelChar E k at g"
| "apply_edit E (AppendString k s g) = editorRowAppendString E k s g"

fun apply_edits :: "editorConfig \<Rightarrow> edit list \<Rightarrow> (fault + editorConfig) option" where
  "apply_edits E [] = Some (Inr E)"
| "apply_edits E (e # es) =
     (case apply_edit E e of
        None \<Rightarrow> None
      | Some (Inl f) \<Rightarrow> Some (Inl f)
      | Some (Inr E') \<Rightarrow> apply_edits E' es)"

lemma buffer_ok_dirty: "buffer_ok (E\<lparr>dirty := d\<rparr>) = buffer_ok E"
proof -
  have "row_ok (E\<lparr>dirty := d\<rparr>) = row_ok E"
  proof (rule ext)
    fix j show "row_ok (E\<lparr>dirty := d\<rparr>) j = row_ok E j"
      by (rule row_ok_cong) (simp_all add: row_seed_def)
  qed
  then show ?thesis by (simp add: buffer_ok_def idx_ok_def hl_consistent_def)
qed

text \<open>
  An edit is safe in a buffer when it names a row of the buffer, writes within the
  block of the row, and the new text of the row renders with the highlighter staying
  within it. A sequence of edits is safe when each edit is safe in the buffer that the
  edits before it leave.
\<close>

fun edit_safe :: "editorConfig \<Rightarrow> edit \<Rightarrow> bool" where
  "edit_safe E (InsertChar k at c g) =
     (k < length (row E) \<and>
      (let r = row E ! k;
           sz = int (length (chars r));
           rsize = int (length (render r));
           at' = (if at < 0 \<or> at > rsize then rsize else at)
       in at' \<le> sz + 1 \<and>
          text_safe E (if at' = sz + 1 then chars r @ [chars_end r]
                       else take (nat at') (chars r) @ [c] @ drop (nat at') (chars r)) g))"
| "edit_safe E (DelChar k at g) =
     (k < length (row E) \<and>
      (at < 0 \<or> int (length (chars (row E ! k))) \<le> at
       \<or> text_safe E (take (nat at) (chars (row E ! k))
                          @ drop (nat at + 1) (chars (row E ! k))) g))"
| "edit_safe E (AppendString k s g) =
     (k < length (row E) \<and> text_safe E (chars (row E ! k) @ s) g)"

fun edits_safe :: "editorConfig \<Rightarrow> edit list \<Rightarrow> bool" where
  "edits_safe E [] = True"
| "edits_safe E (e # es) =
     (edit_safe E e \<and>
      (case apply_edit E e of
         Some (Inr E') \<Rightarrow> edits_safe E' es
       | _ \<Rightarrow> True))"

lemma rows_safe_dirty: "rows_safe (E\<lparr>dirty := d\<rparr>) = rows_safe E"
  by (simp add: rows_safe_iff)

lemma apply_edit_safe:
  assumes ok: "buffer_ok E" and rs: "rows_safe E" and es: "edit_safe E e"
  shows "\<exists>E'. apply_edit E e = Some (Inr E') \<and> buffer_ok E' \<and> rows_safe E'"
proof -
  from ok have idx: "idx_ok E" and n: "numrows E = length (row E)" and con: "hl_consistent E"
    by (simp_all add: buffer_ok_def)
  have step: "\<exists>E'. then_do
        (editorUpdateRow (E\<lparr>row := (row E)[k := r']\<rparr>) k g)
        (\<lambda>E'. Some (Inr (E'\<lparr>dirty := u16 (int (dirty E') + 1)\<rparr>))) = Some (Inr E')
      \<and> buffer_ok E' \<and> rows_safe E'"
    if k: "k < length (row E)" and i': "idx r' = idx (row E ! k)"
      and c': "hl_open_comment r' = hl_open_comment (row E ! k)"
      and t: "text_safe E (chars r') g" for k r' g
  proof -
    have later: "\<forall>j. k < j \<and> j < length (row E) \<longrightarrow> row_safe E (row E ! j)"
      using rs by (simp add: rows_safeD)
    from edit_row[OF idx n k i' c', of g] con t later
    obtain E1 where r: "editorUpdateRow (E\<lparr>row := (row E)[k := r']\<rparr>) k g = Some (Inr E1)"
      and b: "buffer_ok E1"
      and len: "length (row E1) = length (row E)"
      and syn: "syntax_hl E1 = syntax_hl E"
      and rd: "render_loop (tab_stop E) (chars r') [] = Inr (render (row E1 ! k))"
      and mr: "map render (row E1) = (map render (row E))[k := render (row E1 ! k)]"
      and mp: "map render_pre (row E1) = (map render_pre (row E))[k := g]"
      unfolding buffer_ok_def by blast
    have sk: "scan_safe (syntax_hl E) (render (row E1 ! k)) g"
      using t rd by (simp add: text_safe_def)
    have "rows_safe E1"
      unfolding rows_safe_iff
    proof (intro allI impI)
      fix j assume j: "j < length (row E1)"
      show "scan_safe (syntax_hl E1) (map render (row E1) ! j) (map render_pre (row E1) ! j)"
      proof (cases "j = k")
        case True
        then show ?thesis using sk k by (simp add: mr mp syn)
      next
        case False
        have "scan_safe (syntax_hl E) (map render (row E) ! j) (map render_pre (row E) ! j)"
          using rs j len by (simp add: rows_safe_iff)
        then show ?thesis using False by (simp add: mr mp syn)
      qed
    qed
    then have "rows_safe (E1\<lparr>dirty := u16 (int (dirty E1) + 1)\<rparr>)"
      by (simp add: rows_safe_dirty)
    moreover have "buffer_ok (E1\<lparr>dirty := u16 (int (dirty E1) + 1)\<rparr>)"
      using b by (simp add: buffer_ok_dirty)
    ultimately show ?thesis using r by (simp add: then_do_def)
  qed
  show ?thesis
  proof (cases e)
    case (InsertChar k at c g)
    let ?r = "row E ! k"
    let ?sz = "int (length (chars ?r))"
    define at' where
      "at' = (if at < 0 \<or> at > int (length (render ?r)) then int (length (render ?r)) else at)"
    let ?r' = "(if at' = ?sz + 1 then ?r\<lparr>chars := chars ?r @ [chars_end ?r], chars_end := c\<rparr>
                else ?r\<lparr>chars := take (nat at') (chars ?r) @ [c] @ drop (nat at') (chars ?r)\<rparr>)"
    from es InsertChar have k: "k < length (row E)" and le: "at' \<le> ?sz + 1"
      and t: "text_safe E (if at' = ?sz + 1 then chars ?r @ [chars_end ?r]
                else take (nat at') (chars ?r) @ [c] @ drop (nat at') (chars ?r)) g"
      unfolding at'_def by (simp_all add: Let_def)
    have "editorRowInsertChar E k at c g = then_do
          (editorUpdateRow (E\<lparr>row := (row E)[k := ?r']\<rparr>) k g)
          (\<lambda>E'. Some (Inr (E'\<lparr>dirty := u16 (int (dirty E') + 1)\<rparr>)))"
      unfolding editorRowInsertChar_def Let_def at'_def[symmetric] using k le by simp
    moreover have "idx ?r' = idx ?r" "hl_open_comment ?r' = hl_open_comment ?r" by simp_all
    moreover have "text_safe E (chars ?r') g"
    proof (cases "at' = ?sz + 1")
      case True
      then show ?thesis using t by simp
    next
      case False
      then show ?thesis using t by simp
    qed
    ultimately show ?thesis using step[OF k, of ?r' g] InsertChar by simp
  next
    case (DelChar k at g)
    from es DelChar have k: "k < length (row E)" by simp
    show ?thesis
    proof (cases "at < 0 \<or> at \<ge> int (length (chars (row E ! k)))")
      case True
      then have "editorRowDelChar E k at g = Some (Inr E)"
        using k by (simp add: editorRowDelChar_def Let_def)
      then show ?thesis using DelChar ok rs by simp
    next
      case False
      let ?r' = "(row E ! k)\<lparr>chars :=
              take (nat at) (chars (row E ! k)) @ drop (nat at + 1) (chars (row E ! k))\<rparr>"
      have t: "text_safe E (chars ?r') g" using es DelChar False by auto
      have "editorRowDelChar E k at g = then_do
          (editorUpdateRow (E\<lparr>row := (row E)[k := ?r']\<rparr>) k g)
          (\<lambda>E'. Some (Inr (E'\<lparr>dirty := u16 (int (dirty E') + 1)\<rparr>)))"
        using k False by (simp add: editorRowDelChar_def Let_def)
      then show ?thesis using step[OF k, of ?r' g] t DelChar by simp
    qed
  next
    case (AppendString k s g)
    let ?r' = "(row E ! k)\<lparr>chars := chars (row E ! k) @ s, chars_end := NUL\<rparr>"
    from es AppendString have k: "k < length (row E)"
      and t: "text_safe E (chars ?r') g" by simp_all
    have "editorRowAppendString E k s g = then_do
          (editorUpdateRow (E\<lparr>row := (row E)[k := ?r']\<rparr>) k g)
          (\<lambda>E'. Some (Inr (E'\<lparr>dirty := u16 (int (dirty E') + 1)\<rparr>)))"
      using k by (simp add: editorRowAppendString_def Let_def)
    then show ?thesis using step[OF k, of ?r' g] t AppendString by simp
  qed
qed

lemma apply_edits_safe:
  "buffer_ok E \<Longrightarrow> rows_safe E \<Longrightarrow> edits_safe E es
   \<Longrightarrow> \<exists>E'. apply_edits E es = Some (Inr E') \<and> buffer_ok E' \<and> rows_safe E'"
proof (induction es arbitrary: E)
  case Nil
  then show ?case by simp
next
  case (Cons e es)
  from Cons.prems(3) have e: "edit_safe E e" by simp
  from apply_edit_safe[OF Cons.prems(1,2) e]
  obtain E1 where r: "apply_edit E e = Some (Inr E1)" and b: "buffer_ok E1" and s: "rows_safe E1"
    by blast
  have "edits_safe E1 es" using Cons.prems(3) r by simp
  from Cons.IH[OF b s this] show ?case using r by simp
qed

subsection \<open>Highlighting the whole buffer anew\<close>

text \<open>
  When the rows before \<open>i\<close> are up to date and the loop over all rows runs from row
  \<open>i\<close> to its end without a fault, every row is up to date afterwards.
\<close>

lemma highlight_all_from_consistent:
  "idx_ok E \<Longrightarrow> numrows E = length (row E) \<Longrightarrow> \<forall>j<i. j < length (row E) \<longrightarrow> row_ok E j
   \<Longrightarrow> highlight_all_from E i = Some (Inr E'')
   \<Longrightarrow> hl_consistent E'' \<and> strip_hl E'' = strip_hl E"
proof (induction "numrows E - i" arbitrary: E i)
  case 0
  then have "\<not> i < numrows E" by simp
  then have "E'' = E" using 0(5) by (subst (asm) highlight_all_from.simps) simp
  moreover have "\<forall>j<length (row E). row_ok E j" using 0 by simp
  ultimately show ?case by (simp add: hl_consistent_iff)
next
  case (Suc m)
  note idx = Suc.prems(1) and n = Suc.prems(2) and before = Suc.prems(3)
  have i: "i < numrows E" using Suc.hyps(2) by simp
  then have il: "i < length (row E)" using n by simp
  from Suc.prems(4) i obtain E1 where u: "editorUpdateSyntax E i = Some (Inr E1)"
    and rest: "highlight_all_from E1 (Suc i) = Some (Inr E'')"
    by (subst (asm) highlight_all_from.simps) (auto split: option.splits sum.splits)
  have st: "strip_hl E1 = strip_hl E" using u by (rule editorUpdateSyntax_strip)
  have len1: "length (row E1) = length (row E)" using st by (rule strip_hl_length)
  have idx1: "idx_ok E1" using strip_hl_idx_ok[OF st] idx by simp
  have n1: "numrows E1 = length (row E1)" using strip_hl_scalars[OF st] n len1 by simp
  have syn1: "syntax_hl E1 = syntax_hl E" using strip_hl_scalars[OF st] by simp
  from editorUpdateSyntax_row[OF idx il u]
  have same: "\<And>j. j < i \<Longrightarrow> row E1 ! j = row E ! j" and oki: "row_ok E1 i" by simp_all
  have before1: "\<forall>j<Suc i. j < length (row E1) \<longrightarrow> row_ok E1 j"
  proof (intro allI impI)
    fix j assume j: "j < Suc i" and jl: "j < length (row E1)"
    show "row_ok E1 j"
    proof (cases "j = i")
      case True
      then show ?thesis using oki by simp
    next
      case False
      then have ji: "j < i" using j by simp
      have "row_ok E1 j = row_ok E j"
      proof (rule row_ok_cong[OF syn1])
        show "row E1 ! j = row E ! j" using same ji by simp
        show "row_seed E1 j = row_seed E j"
          by (rule row_seed_cong) (use same ji in simp)
      qed
      then show ?thesis using before ji jl len1 by simp
    qed
  qed
  have m: "m = numrows E1 - Suc i" using Suc.hyps(2) strip_hl_scalars[OF st] by simp
  from Suc.hyps(1)[OF m idx1 n1 before1 rest] st show ?case by simp
qed

text \<open>
  The classes of a buffer that is up to date are determined by its text: two up-to-date
  buffers that differ in the highlighting at most have the same classes.
\<close>

lemma consistent_unique:
  assumes st: "strip_hl A = strip_hl B" and a: "hl_consistent A" and b: "hl_consistent B"
  shows "map hl (row A) = map hl (row B)"
proof -
  have len: "length (row A) = length (row B)" using st by (rule strip_hl_length)
  have syn: "syntax_hl A = syntax_hl B" using strip_hl_scalars[OF st] by simp
  have rd: "render (row A ! j) = render (row B ! j)" if "j < length (row B)" for j
  proof -
    have "render (row A ! j) = map render (row A) ! j" using that len by simp
    also have "\<dots> = map render (row B) ! j" by (simp only: strip_hl_render[OF st])
    also have "\<dots> = render (row B ! j)" using that by simp
    finally show ?thesis .
  qed
  have rp: "render_pre (row A ! j) = render_pre (row B ! j)" if "j < length (row B)" for j
  proof -
    have "render_pre (row A ! j) = map render_pre (row A) ! j" using that len by simp
    also have "\<dots> = map render_pre (row B) ! j" by (simp only: strip_hl_render_pre[OF st])
    also have "\<dots> = render_pre (row B ! j)" using that by simp
    finally show ?thesis .
  qed
  have oka: "\<And>j. j < length (row B) \<Longrightarrow> row_ok A j" using a len by (simp add: hl_consistent_iff)
  have okb: "\<And>j. j < length (row B) \<Longrightarrow> row_ok B j" using b by (simp add: hl_consistent_iff)
  have eq: "hl (row A ! j) = hl (row B ! j)" if j: "j < length (row B)" for j
  proof (cases "syntax_hl B")
    case None
    then show ?thesis using oka[OF j] okb[OF j] syn rd[OF j] by (simp add: row_ok_def)
  next
    case (Some syn')
    have both: "j < length (row B) \<Longrightarrow> hl (row A ! j) = hl (row B ! j)
        \<and> hl_open_comment (row A ! j) = hl_open_comment (row B ! j)" for j
    proof (induction j)
      case 0
      have "row_scan syn' A 0 = row_scan syn' B 0"
        using rd[OF 0] rp[OF 0] by (simp add: row_scan_def row_seed_def)
      then show ?case using oka[OF 0] okb[OF 0] Some syn
        by (auto simp: row_ok_def split: sum.splits)
    next
      case (Suc j)
      then have "hl_open_comment (row A ! j) = hl_open_comment (row B ! j)" by simp
      then have "row_scan syn' A (Suc j) = row_scan syn' B (Suc j)"
        using rd[OF Suc.prems] rp[OF Suc.prems] by (simp add: row_scan_def row_seed_def)
      then show ?case using oka[OF Suc.prems] okb[OF Suc.prems] Some syn
        by (auto simp: row_ok_def split: sum.splits)
    qed
    then show ?thesis using j by simp
  qed
  show ?thesis
    by (rule nth_equalityI) (simp_all add: len eq)
qed

section \<open>The cascade converges\<close>

text \<open>A buffer of two rows under the C profile that is in order.\<close>

definition two_rows :: editorConfig where
  "two_rows =
     \<lparr>tab_stop = 4,
      row = [\<lparr>idx = 0, chars = '' x'', render = '' x'', render_pre = NUL,
               hl = [HL_NORMAL, HL_NORMAL], hl_open_comment = 0, chars_end = NUL\<rparr>,
             \<lparr>idx = 1, chars = ''y'', render = ''y'', render_pre = NUL,
               hl = [HL_NORMAL], hl_open_comment = 0, chars_end = NUL\<rparr>],
      syntax_hl = Some HLDB_c, cx = 0, cy = 0, rowoff = 0, numrows = 2, dirty = 0\<rparr>"

text \<open>
  The buffers of two files under the C profile: the three lines \<open>/*\<close>, \<open>x\<close>, \<open>y\<close>, and
  the two lines \<open>/*/\<close>, \<open>x\<close>. In both the first row opens a block comment and the
  other rows lie inside it.
\<close>

definition comment_file :: editorConfig where
  "comment_file =
     \<lparr>tab_stop = 4,
      row = [\<lparr>idx = 0, chars = ''/*'', render = ''/*'', render_pre = NUL,
               hl = [HL_MLCOMMENT, HL_MLCOMMENT], hl_open_comment = 1, chars_end = NUL\<rparr>,
             \<lparr>idx = 1, chars = ''x'', render = ''x'', render_pre = NUL,
               hl = [HL_COMMENT], hl_open_comment = 1, chars_end = NUL\<rparr>,
             \<lparr>idx = 2, chars = ''y'', render = ''y'', render_pre = NUL,
               hl = [HL_COMMENT], hl_open_comment = 1, chars_end = NUL\<rparr>],
      syntax_hl = Some HLDB_c, cx = 0, cy = 0, rowoff = 0, numrows = 3, dirty = 0\<rparr>"

definition slash_file :: editorConfig where
  "slash_file =
     \<lparr>tab_stop = 4,
      row = [\<lparr>idx = 0, chars = ''/*/'', render = ''/*/'', render_pre = NUL,
               hl = [HL_MLCOMMENT, HL_MLCOMMENT, HL_COMMENT], hl_open_comment = 1,
               chars_end = NUL\<rparr>,
             \<lparr>idx = 1, chars = ''x'', render = ''x'', render_pre = NUL,
               hl = [HL_COMMENT], hl_open_comment = 1, chars_end = NUL\<rparr>],
      syntax_hl = Some HLDB_c, cx = 0, cy = 0, rowoff = 0, numrows = 2, dirty = 0\<rparr>"

text \<open>
  The buffer of the three lines \<open> x/\<close>, \<open>"f(y)\<close> and \<open>z\<close> under the C profile. Row 1
  is a string as long as no comment is open in front of it; inside a comment its \<open>f\<close>
  starts the function-name walk, which finds no space.
\<close>

definition quote_file :: editorConfig where
  "quote_file =
     \<lparr>tab_stop = 4,
      row = [\<lparr>idx = 0, chars = '' x/'', render = '' x/'', render_pre = NUL,
               hl = [HL_NORMAL, HL_NORMAL, HL_NORMAL], hl_open_comment = 0, chars_end = NUL\<rparr>,
             \<lparr>idx = 1, chars = CHR 0x22 # ''f(y)'', render = CHR 0x22 # ''f(y)'',
               render_pre = NUL,
               hl = [HL_STRING, HL_STRING, HL_STRING, HL_STRING, HL_STRING],
               hl_open_comment = 0, chars_end = NUL\<rparr>,
             \<lparr>idx = 2, chars = ''z'', render = ''z'', render_pre = NUL,
               hl = [HL_NORMAL], hl_open_comment = 0, chars_end = NUL\<rparr>],
      syntax_hl = Some HLDB_c, cx = 0, cy = 0, rowoff = 0, numrows = 3, dirty = 0\<rparr>"

text \<open>The pass over all rows from row 0, run on the buffer that an operation returns.\<close>

definition full_pass :: "(fault + editorConfig) option \<Rightarrow> (fault + editorConfig) option" where
  "full_pass res = then_do res (\<lambda>E. highlight_all_from E 0)"

text \<open>
  C1, as the claim states it, fails. \<open>comment_file\<close> and \<open>slash_file\<close> are what
  \<^verbatim>\<open>editorOpen\<close> makes of the two files, and their highlighting is up to date: a pass
  over all rows from row 0 changes nothing.

  First, not every buffer is up to date when the edits start. \<^verbatim>\<open>editorDelRow\<close> highlights
  no row: after it has removed row 0 of \<open>comment_file\<close>, the rows \<open>x\<close> and \<open>y\<close> still
  count as inside a comment. Typing \<open>*\<close> and \<open>/\<close> behind the \<open>y\<close>
  (\<^verbatim>\<open>editorRowInsertChar\<close>, twice) highlights row 1 from the flag of row 0 and leaves
  row 0 as it is; the pass over all rows gives \<^verbatim>\<open>HL_NORMAL\<close> everywhere.

  Second, \<^verbatim>\<open>editorInsertRow\<close>. With the cursor behind the first \<open>/\<close> of row 0 of
  \<open>slash_file\<close> the Enter key calls \<^verbatim>\<open>editorInsertRow(1, "*/", 2)\<close>. The new row 1 closes
  the comment, so its \<^verbatim>\<open>hl_open_comment\<close> changes from 1 (the value the slot held) to 0
  and row 2, the old row \<open>x\<close>, is due. But \<^verbatim>\<open>editorUpdateRow\<close> runs before
  \<^verbatim>\<open>E.numrows++\<close>: the test \<^verbatim>\<open>row->idx + 1 < E.numrows\<close> is \<open>2 < 2\<close>, the cascade stops
  before the last row, and \<open>x\<close> keeps \<^verbatim>\<open>HL_COMMENT\<close> where the pass over all rows gives
  \<^verbatim>\<open>HL_NORMAL\<close>. The rest of \<^verbatim>\<open>editorInsertNewLine\<close> cuts row 0 to \<open>/\<close> and highlights it
  and row 1 anew; row 2 stays as it was.

  Third, an edit after which the highlighter leaves the row gives no classes at all: an
  \<open>(\<close> behind the \<open>y\<close> of \<open>two_rows\<close>. Nor does an edit whose cascade reaches a row
  that the highlighter leaves once a comment is open: in \<open>quote_file\<close>, which is up to
  date, a \<open>*\<close> behind the \<open>/\<close> of row 0 is a safe edit of row 0, and the scan of row 1
  stops the function.
\<close>

theorem cascade_counterexample:
  "editorOpen (initEditor (Some HLDB_c)) (''/*'' @ [LF] @ ''x'' @ [LF] @ ''y'' @ [LF])
       no_junk no_byte = Some (Inr comment_file)
   \<and> highlight_all_from comment_file 0 = Some (Inr comment_file)
   \<and> texts (apply_edits (editorDelRow comment_file 0)
              [InsertChar 1 1 CHR ''*'' NUL, InsertChar 1 2 CHR ''/'' NUL])
       = Some (Inr [''x'', ''y*/''])
   \<and> classes (apply_edits (editorDelRow comment_file 0)
                [InsertChar 1 1 CHR ''*'' NUL, InsertChar 1 2 CHR ''/'' NUL])
       = Some (Inr [[HL_COMMENT], [HL_COMMENT, HL_MLCOMMENT, HL_MLCOMMENT]])
   \<and> classes (full_pass (apply_edits (editorDelRow comment_file 0)
                         [InsertChar 1 1 CHR ''*'' NUL, InsertChar 1 2 CHR ''/'' NUL]))
       = Some (Inr [[HL_NORMAL], [HL_NORMAL, HL_NORMAL, HL_NORMAL]])
   \<and> classes (apply_edits (editorDelRow comment_file 0)
                [InsertChar 1 1 CHR ''*'' NUL, InsertChar 1 2 CHR ''/'' NUL])
       \<noteq> classes (full_pass (apply_edits (editorDelRow comment_file 0)
                         [InsertChar 1 1 CHR ''*'' NUL, InsertChar 1 2 CHR ''/'' NUL]))
   \<and> editorOpen (initEditor (Some HLDB_c)) (''/*/'' @ [LF] @ ''x'' @ [LF]) no_junk no_byte
       = Some (Inr slash_file)
   \<and> highlight_all_from slash_file 0 = Some (Inr slash_file)
   \<and> texts (editorInsertRow slash_file 1 ''*/'' (no_junk 2) NUL)
       = Some (Inr [''/*/'', ''*/'', ''x''])
   \<and> classes (editorInsertRow slash_file 1 ''*/'' (no_junk 2) NUL)
       = Some (Inr [[HL_MLCOMMENT, HL_MLCOMMENT, HL_COMMENT], [HL_MLCOMMENT, HL_MLCOMMENT],
                    [HL_COMMENT]])
   \<and> classes (full_pass (editorInsertRow slash_file 1 ''*/'' (no_junk 2) NUL))
       = Some (Inr [[HL_MLCOMMENT, HL_MLCOMMENT, HL_COMMENT], [HL_MLCOMMENT, HL_MLCOMMENT],
                    [HL_NORMAL]])
   \<and> texts (editorInsertNewLine (slash_file\<lparr>cx := 1\<rparr>) (no_junk 2) NUL NUL)
       = Some (Inr [''/'', ''*/'', ''x''])
   \<and> classes (editorInsertNewLine (slash_file\<lparr>cx := 1\<rparr>) (no_junk 2) NUL NUL)
       = Some (Inr [[HL_NORMAL], [HL_NORMAL, HL_NORMAL], [HL_COMMENT]])
   \<and> classes (full_pass (editorInsertNewLine (slash_file\<lparr>cx := 1\<rparr>) (no_junk 2) NUL NUL))
       = Some (Inr [[HL_NORMAL], [HL_NORMAL, HL_NORMAL], [HL_NORMAL]])
   \<and> apply_edits two_rows [InsertChar 1 1 CHR ''('' NUL] = Some (Inl OutOfBounds)
   \<and> highlight_all_from quote_file 0 = Some (Inr quote_file)
   \<and> edits_safe quote_file [InsertChar 0 3 CHR ''*'' NUL]
   \<and> apply_edits quote_file [InsertChar 0 3 CHR ''*'' NUL] = Some (Inl OutOfBounds)"
  by code_simp

text \<open>
  C1, amended. Start from a buffer in order (rows numbered by their offsets,
  \<^verbatim>\<open>numrows\<close> rows, highlighting up to date, as after loading a file) in which the
  highlighter stays within every row, and apply any safe sequence of the edits of a row
  (\<^verbatim>\<open>editorRowInsertChar\<close>, \<^verbatim>\<open>editorRowDelChar\<close>, \<^verbatim>\<open>editorRowAppendString\<close>), each of
  which highlights its row anew and passes a changed \<^verbatim>\<open>hl_open_comment\<close> on to the next
  row, down to the last row. The sequence returns a buffer. Running the highlighter
  over all rows from row 0 on that buffer gives the buffer itself, and running it over
  all rows from any other highlighting of the same text returns and gives the same
  classes in every row.
\<close>

theorem cascade_convergence:
  assumes "buffer_ok E" and "rows_safe E" and "edits_safe E es"
  shows "\<exists>E'. apply_edits E es = Some (Inr E')
     \<and> highlight_all_from E' 0 = Some (Inr E')
     \<and> (\<forall>E2. strip_hl E2 = strip_hl E' \<longrightarrow>
           (\<exists>E''. highlight_all_from E2 0 = Some (Inr E'')
              \<and> map hl (row E'') = map hl (row E')))"
proof -
  from apply_edits_safe[OF assms]
  obtain E' where r: "apply_edits E es = Some (Inr E')"
    and b: "buffer_ok E'" and s: "rows_safe E'" by blast
  from b have idx: "idx_ok E'" and n: "numrows E' = length (row E')"
    and con: "hl_consistent E'" by (simp_all add: buffer_ok_def)
  have fp: "highlight_all_from E' 0 = Some (Inr E')"
    using idx n con by (rule highlight_all_from_fixpoint)
  have "\<exists>E''. highlight_all_from E2 0 = Some (Inr E'') \<and> map hl (row E'') = map hl (row E')"
    if st: "strip_hl E2 = strip_hl E'" for E2
  proof -
    have idx2: "idx_ok E2" using strip_hl_idx_ok[OF st] idx by simp
    have n2: "numrows E2 = length (row E2)"
      using strip_hl_scalars[OF st] strip_hl_length[OF st] n by simp
    have s2: "rows_safe E2" using rows_safe_strip[OF st] s by simp
    from highlight_all_from_safe[OF idx2 n2 s2, of 0]
    obtain E'' where h: "highlight_all_from E2 0 = Some (Inr E'')" by blast
    have "\<forall>j<0. j < length (row E2) \<longrightarrow> row_ok E2 j" by simp
    from highlight_all_from_consistent[OF idx2 n2 this h]
    have c2: "hl_consistent E''" and s2: "strip_hl E'' = strip_hl E2" by simp_all
    have "strip_hl E'' = strip_hl E'" using s2 st by simp
    then have "map hl (row E'') = map hl (row E')" using c2 con by (rule consistent_unique)
    with h show ?thesis by blast
  qed
  with r fp show ?thesis by blast
qed

text \<open>
  \<open>two_rows\<close> after \<open>/\<close> and \<open>*\<close> were typed behind the \<open>x\<close> of row 0, and the same text
  with the highlighting it had before.
\<close>

definition two_rows_edited :: editorConfig where
  "two_rows_edited =
     \<lparr>tab_stop = 4,
      row = [\<lparr>idx = 0, chars = '' x/*'', render = '' x/*'', render_pre = NUL,
               hl = [HL_NORMAL, HL_NORMAL, HL_MLCOMMENT, HL_MLCOMMENT], hl_open_comment = 1,
               chars_end = NUL\<rparr>,
             \<lparr>idx = 1, chars = ''y'', render = ''y'', render_pre = NUL,
               hl = [HL_COMMENT], hl_open_comment = 1, chars_end = NUL\<rparr>],
      syntax_hl = Some HLDB_c, cx = 0, cy = 0, rowoff = 0, numrows = 2, dirty = 2\<rparr>"

definition two_rows_stale :: editorConfig where
  "two_rows_stale =
     \<lparr>tab_stop = 4,
      row = [\<lparr>idx = 0, chars = '' x/*'', render = '' x/*'', render_pre = NUL,
               hl = [HL_NORMAL, HL_NORMAL], hl_open_comment = 0, chars_end = NUL\<rparr>,
             \<lparr>idx = 1, chars = ''y'', render = ''y'', render_pre = NUL,
               hl = [HL_NORMAL], hl_open_comment = 0, chars_end = NUL\<rparr>],
      syntax_hl = Some HLDB_c, cx = 0, cy = 0, rowoff = 0, numrows = 2, dirty = 2\<rparr>"

theorem cascade_convergence_witness:
  "buffer_ok two_rows \<and> rows_safe two_rows
   \<and> edits_safe two_rows [InsertChar 0 2 CHR ''/'' NUL, InsertChar 0 3 CHR ''*'' NUL]
   \<and> apply_edits two_rows [InsertChar 0 2 CHR ''/'' NUL, InsertChar 0 3 CHR ''*'' NUL]
       = Some (Inr two_rows_edited)
   \<and> highlight_all_from two_rows_edited 0 = Some (Inr two_rows_edited)
   \<and> strip_hl two_rows_stale = strip_hl two_rows_edited
   \<and> classes (highlight_all_from two_rows_stale 0)
       = Some (Inr [[HL_NORMAL, HL_NORMAL, HL_MLCOMMENT, HL_MLCOMMENT], [HL_COMMENT]])
   \<and> map hl (row two_rows_edited)
       = [[HL_NORMAL, HL_NORMAL, HL_MLCOMMENT, HL_MLCOMMENT], [HL_COMMENT]]"
proof -
  let ?es = "[InsertChar 0 2 CHR ''/'' NUL, InsertChar 0 3 CHR ''*'' NUL]"
  have ok: "buffer_ok two_rows" by code_simp
  have rs: "rows_safe two_rows" by code_simp
  have es: "edits_safe two_rows ?es" by code_simp
  have ap: "apply_edits two_rows ?es = Some (Inr two_rows_edited)" by code_simp
  have st: "strip_hl two_rows_stale = strip_hl two_rows_edited"
    by (simp add: strip_hl_def two_rows_stale_def two_rows_edited_def)
  have cl: "map hl (row two_rows_edited)
       = [[HL_NORMAL, HL_NORMAL, HL_MLCOMMENT, HL_MLCOMMENT], [HL_COMMENT]]"
    by (simp add: two_rows_edited_def)
  from cascade_convergence[OF ok rs es]
  obtain E' where a: "apply_edits two_rows ?es = Some (Inr E')"
    and fp: "highlight_all_from E' 0 = Some (Inr E')"
    and un: "\<And>E2. strip_hl E2 = strip_hl E' \<Longrightarrow>
           \<exists>E''. highlight_all_from E2 0 = Some (Inr E'') \<and> map hl (row E'') = map hl (row E')"
    by blast
  have E': "E' = two_rows_edited" using a ap by simp
  have f2: "highlight_all_from two_rows_edited 0 = Some (Inr two_rows_edited)"
    using fp by (simp only: E')
  from un[of two_rows_stale] st
  obtain E'' where h: "highlight_all_from two_rows_stale 0 = Some (Inr E'')"
    and m: "map hl (row E'') = map hl (row two_rows_edited)"
    unfolding E' by blast
  have c2: "classes (highlight_all_from two_rows_stale 0)
       = Some (Inr [[HL_NORMAL, HL_NORMAL, HL_MLCOMMENT, HL_MLCOMMENT], [HL_COMMENT]])"
    using h m cl by (simp add: classes_def)
  from ok rs es ap f2 st c2 cl show ?thesis by (intro conjI)
qed

section \<open>Inserting rows and characters\<close>

text \<open>
  The array \<^verbatim>\<open>editorInsertRow\<close> hands to \<^verbatim>\<open>editorUpdateRow\<close> when \<open>at\<close> is in range, in a
  buffer that holds \<^verbatim>\<open>numrows\<close> rows.
\<close>

lemma editorInsertRow_in_range:
  assumes n: "numrows E = length (row E)" and a: "a \<le> length (row E)"
  shows "editorInsertRow E (int a) s junk g =
     then_do
       (editorUpdateRow
          (E\<lparr>row := take a (row E)
                 @ [((row E @ [junk]) ! a)\<lparr>idx := int a, chars := s, chars_end := NUL, render := [], hl := []\<rparr>]
                 @ map (\<lambda>r. r\<lparr>idx := idx r + 1\<rparr>) (drop a (row E))\<rparr>) a g)
       (\<lambda>E'. Some (Inr (E'\<lparr>numrows := u16 (int (length (row E)) + 1),
                             dirty := u16 (int (dirty E') + 1)\<rparr>)))"
proof -
  let ?n = "length (row E)"
  let ?arr = "row E @ [junk]"
  have arr: "take (?n + 1) (row E) @ replicate (?n + 1 - length (row E)) junk = ?arr" by simp
  have moved: "take (a + 1) ?arr @ drop a (take ?n ?arr) = take a (row E) @ [?arr ! a] @ drop a (row E)"
  proof -
    have "a < length ?arr" using a by simp
    then have "take (Suc a) ?arr = take a ?arr @ [?arr ! a]"
      by (rule take_Suc_conv_app_nth)
    moreover have "take a ?arr = take a (row E)" using a by simp
    moreover have "take ?n ?arr = row E" by simp
    ultimately show ?thesis by simp
  qed
  let ?moved = "take a (row E) @ [?arr ! a] @ drop a (row E)"
  have la: "length (take a (row E)) = a" using a by simp
  have tk: "take (a + 1) ?moved = take a (row E) @ [?arr ! a]" using la by simp
  have dr: "drop (a + 1) ?moved = drop a (row E)" using la by simp
  let ?bumped = "take a (row E) @ [?arr ! a] @ map (\<lambda>r. r\<lparr>idx := idx r + 1\<rparr>) (drop a (row E))"
  have bumped: "take (a + 1) ?moved @ map (\<lambda>r. r\<lparr>idx := idx r + 1\<rparr>) (drop (a + 1) ?moved) = ?bumped"
    by (simp only: tk dr) simp
  have nth: "?bumped ! a = ?arr ! a" using la by (simp add: nth_append)
  have upd: "?bumped[a := x] = take a (row E) @ [x] @ map (\<lambda>r. r\<lparr>idx := idx r + 1\<rparr>) (drop a (row E))"
    for x using la by (simp add: list_update_append)
  show ?thesis
    unfolding editorInsertRow_def Let_def
    apply (simp only: n nat_int arr moved bumped nth upd)
    using a apply simp
    done
qed

lemma idx_ok_insert:
  assumes "idx_ok E" and a: "a \<le> length (row E)"
  shows "map idx (take a (row E) @ [r\<lparr>idx := int a, chars := s, chars_end := NUL, render := [], hl := []\<rparr>]
            @ map (\<lambda>r. r\<lparr>idx := idx r + 1\<rparr>) (drop a (row E)))
         = map int [0..<length (row E) + 1]"
proof -
  let ?n = "length (row E)"
  have i: "map idx (row E) = map int [0..<?n]" using assms(1) by (simp add: idx_ok_def)
  have t: "map idx (take a (row E)) = map int [0..<a]"
    using a by (simp add: take_map[symmetric] i take_map)
  have "map idx (drop a (row E)) = map int [a..<?n]"
    by (simp add: drop_map[symmetric] i drop_map)
  then have d: "map idx (map (\<lambda>r. r\<lparr>idx := idx r + 1\<rparr>) (drop a (row E))) = map int [Suc a..<Suc ?n]"
  proof -
    assume d0: "map idx (drop a (row E)) = map int [a..<?n]"
    have "map idx (map (\<lambda>r. r\<lparr>idx := idx r + 1\<rparr>) (drop a (row E)))
          = map (\<lambda>x. x + 1) (map idx (drop a (row E)))"
      by (simp add: comp_def)
    also have "\<dots> = map (\<lambda>x. x + 1) (map int [a..<?n])" by (simp only: d0)
    also have "\<dots> = map int (map Suc [a..<?n])" by (simp add: comp_def)
    also have "map Suc [a..<?n] = [Suc a..<Suc ?n]" by (rule map_Suc_upt)
    finally show ?thesis .
  qed
  have "[0..<Suc ?n] = [0..<a] @ [a..<Suc ?n]"
    using a upt_add_eq_append[of 0 a "Suc ?n - a"] by simp
  also have "[a..<Suc ?n] = a # [Suc a..<Suc ?n]" using a by (simp add: upt_conv_Cons)
  finally have "[0..<?n + 1] = [0..<a] @ [a] @ [Suc a..<Suc ?n]" by simp
  then show ?thesis using t d by simp
qed

lemma u16_small: "n < 65536 \<Longrightarrow> u16 (int n) = n"
  by (simp add: u16_def)

text \<open>
  \<^verbatim>\<open>editorInsertRow\<close> with \<open>at\<close> in range returns. When it returns a state, the new row
  stands at \<open>at\<close> between the old rows and every \<^verbatim>\<open>idx\<close> is the offset of its row. It
  returns a state when the highlighter stays within the new row and the rows after it.
\<close>

lemma editorInsertRow_result:
  assumes idx: "idx_ok E" and n: "numrows E = length (row E)" and a: "a \<le> length (row E)"
  shows "\<exists>res. editorInsertRow E (int a) s junk g = Some res \<and>
    (\<forall>E'. res = Inr E' \<longrightarrow>
       length (row E') = length (row E) + 1
       \<and> numrows E' = u16 (int (length (row E)) + 1)
       \<and> idx_ok E'
       \<and> map chars (row E') = take a (map chars (row E)) @ [s] @ drop a (map chars (row E))
       \<and> dirty E' = u16 (int (dirty E) + 1)
       \<and> tab_stop E' = tab_stop E \<and> syntax_hl E' = syntax_hl E)
    \<and> (text_safe E s g \<and> list_all (row_safe E) (drop a (row E)) \<longrightarrow> (\<exists>E'. res = Inr E'))"
proof -
  let ?new = "((row E @ [junk]) ! a)\<lparr>idx := int a, chars := s, chars_end := NUL, render := [], hl := []\<rparr>"
  let ?bump = "\<lambda>r::erow. r\<lparr>idx := idx r + 1\<rparr>"
  let ?rows = "take a (row E) @ [?new] @ map ?bump (drop a (row E))"
  let ?E0 = "E\<lparr>row := ?rows\<rparr>"
  let ?fin = "\<lambda>E'. Some (Inr (E'\<lparr>numrows := u16 (int (length (row E)) + 1),
                             dirty := u16 (int (dirty E') + 1)\<rparr>))"
  have eq: "editorInsertRow E (int a) s junk g = then_do (editorUpdateRow ?E0 a g) ?fin"
    using n a by (rule editorInsertRow_in_range)
  have len0: "length ?rows = length (row E) + 1" using a by simp
  have i0: "map idx ?rows = map int [0..<length (row E) + 1]"
    using idx a by (rule idx_ok_insert)
  have idx0: "idx_ok ?E0" using i0 len0 by (simp add: idx_ok_def)
  have ch0: "map chars ?rows = take a (map chars (row E)) @ [s] @ drop a (map chars (row E))"
    by (simp add: take_map drop_map comp_def)
  from editorUpdateRow_total[OF idx0, of a g]
  obtain r0 where r0: "editorUpdateRow ?E0 a g = Some r0" by blast
  have safe: "\<exists>E1. r0 = Inr E1"
    if t: "text_safe E s g" and later: "list_all (row_safe E) (drop a (row E))"
  proof -
    have la: "length (take a (row E)) = a" using a by simp
    have a0: "a < length (row ?E0)" using a by simp
    have n0: "numrows ?E0 \<le> length (row ?E0)" using n by simp
    have ra: "row ?E0 ! a = ?new" using la by (simp add: nth_append)
    have "text_safe ?E0 s g = text_safe E s g" by (rule text_safe_cong) simp_all
    then have t0: "text_safe ?E0 (chars (row ?E0 ! a)) g" using t by (simp only: ra) simp
    have later0: "\<forall>j. a < j \<and> j < length (row ?E0) \<longrightarrow> row_safe ?E0 (row ?E0 ! j)"
    proof (intro allI impI)
      fix j assume j: "a < j \<and> j < length (row ?E0)"
      then have j1: "j - Suc a < length (drop a (row E))" using a by auto
      have "?rows ! j = (map ?bump (drop a (row E))) ! (j - Suc a)"
        using j la by (simp add: nth_append)
      also have "\<dots> = ?bump (drop a (row E) ! (j - Suc a))" using j1 by (simp only: nth_map)
      finally have rj: "row ?E0 ! j = ?bump (drop a (row E) ! (j - Suc a))" by simp
      have "drop a (row E) ! (j - Suc a) \<in> set (drop a (row E))" using j1 by (rule nth_mem)
      then have "row_safe E (drop a (row E) ! (j - Suc a))"
        using later by (simp add: list_all_iff)
      then show "row_safe ?E0 (row ?E0 ! j)" unfolding rj by (simp add: row_safe_def)
    qed
    from editorUpdateRow_safe[OF idx0 a0 n0 t0 later0] show ?thesis using r0 by simp
  qed
  show ?thesis
  proof (cases r0)
    case (Inl f)
    then show ?thesis using eq r0 safe by (auto simp: then_do_def)
  next
    case (Inr E1)
    then have u: "editorUpdateRow ?E0 a g = Some (Inr E1)" using r0 by simp
    note f = editorUpdateRow_frame[OF u]
    let ?E' = "E1\<lparr>numrows := u16 (int (length (row E)) + 1), dirty := u16 (int (dirty E1) + 1)\<rparr>"
    have res: "editorInsertRow E (int a) s junk g = Some (Inr ?E')"
      using eq u by (simp add: then_do_def)
    have l: "length (row ?E') = length (row E) + 1" using f len0 by simp
    have i: "idx_ok ?E'" using f i0 len0 by (simp add: idx_ok_def)
    have c: "map chars (row ?E') = take a (map chars (row E)) @ [s] @ drop a (map chars (row E))"
      using f ch0 by simp
    have d: "dirty ?E' = u16 (int (dirty E) + 1)" using f by simp
    have o: "tab_stop ?E' = tab_stop E \<and> syntax_hl ?E' = syntax_hl E" using f by simp
    show ?thesis using res l i c d o by simp
  qed
qed

text \<open>A buffer of the one row \<open>ab\<close>, without a syntax.\<close>

definition row_ab :: editorConfig where
  "row_ab =
     \<lparr>tab_stop = 4,
      row = [\<lparr>idx = 0, chars = ''ab'', render = ''ab'', render_pre = NUL,
               hl = [HL_NORMAL, HL_NORMAL], hl_open_comment = 0, chars_end = NUL\<rparr>],
      syntax_hl = None, cx = 0, cy = 0, rowoff = 0, numrows = 1, dirty = 0\<rparr>"

text \<open>
  C7, as the claim states it, fails: with \<open>at\<close> above the number of rows or below 0
  \<^verbatim>\<open>editorInsertRow\<close> returns at once. In the buffer of the one row \<open>ab\<close> the calls
  with \<open>at = 5\<close> and \<open>at = -1\<close> leave the one row; the claim has the rows \<open>ab\<close>, \<open>x\<close>
  and \<open>x\<close>, \<open>ab\<close>. And a new row that the highlighter leaves is not inserted: under the
  C profile the text \<open>f(x)\<close> stops the function. Nor is a new row whose cascade reaches
  a row that the highlighter leaves: the text \<open>/*\<close> in front of row 1 of \<open>quote_file\<close>.
\<close>

theorem editorInsertRow_out_of_range_counterexample:
  "texts (editorInsertRow row_ab 5 ''x'' (no_junk 1) NUL) = Some (Inr [''ab''])
   \<and> texts (editorInsertRow row_ab 5 ''x'' (no_junk 1) NUL) \<noteq> Some (Inr [''ab'', ''x''])
   \<and> texts (editorInsertRow row_ab (-1) ''x'' (no_junk 1) NUL) = Some (Inr [''ab''])
   \<and> texts (editorInsertRow row_ab (-1) ''x'' (no_junk 1) NUL) \<noteq> Some (Inr [''x'', ''ab''])
   \<and> editorInsertRow two_rows 1 ''f(x)'' (no_junk 2) NUL = Some (Inl OutOfBounds)
   \<and> text_safe quote_file ''/*'' NUL
   \<and> editorInsertRow quote_file 1 ''/*'' (no_junk 3) NUL = Some (Inl OutOfBounds)"
  by code_simp

text \<open>
  C7, amended. Take a buffer of \<open>len\<close> rows numbered by their offsets. For \<open>at < 0\<close>
  and for \<open>at > len\<close> \<^verbatim>\<open>editorInsertRow\<close> leaves the buffer as it is. For
  \<open>0 \<le> at \<le> len\<close>, with \<open>len < 65535\<close>, when the text renders and the highlighter stays
  within the new row and within the rows from \<open>at\<close> on: the function returns, the buffer
  has \<open>len + 1\<close> rows, the new row holds the text at position \<open>at\<close>, the rows before and
  after it are the old ones in their order, and every row's \<^verbatim>\<open>idx\<close> is its offset.
\<close>

theorem editorInsertRow_amended:
  assumes "idx_ok E" and "numrows E = length (row E)"
  shows "(0 \<le> at \<and> at \<le> int (numrows E) \<and> numrows E < 65535
          \<and> text_safe E s g \<and> list_all (row_safe E) (drop (nat at) (row E)) \<longrightarrow>
            (\<exists>E'. editorInsertRow E at s junk g = Some (Inr E')
               \<and> length (row E') = numrows E + 1 \<and> numrows E' = numrows E + 1
               \<and> idx_ok E'
               \<and> map chars (row E')
                   = take (nat at) (map chars (row E)) @ [s] @ drop (nat at) (map chars (row E))))
       \<and> (at < 0 \<or> int (numrows E) < at \<longrightarrow> editorInsertRow E at s junk g = Some (Inr E))"
proof (intro conjI impI)
  assume h: "0 \<le> at \<and> at \<le> int (numrows E) \<and> numrows E < 65535
          \<and> text_safe E s g \<and> list_all (row_safe E) (drop (nat at) (row E))"
  then have a: "nat at \<le> length (row E)" using assms(2) by linarith
  from h have at: "int (nat at) = at" by simp
  have u: "u16 (int (length (row E)) + 1) = numrows E + 1"
    using h assms(2) u16_small[of "length (row E) + 1"] by (simp add: add.commute)
  from editorInsertRow_result[OF assms a, of s junk g]
  obtain res where r: "editorInsertRow E at s junk g = Some res"
    and p: "\<And>E'. res = Inr E' \<Longrightarrow>
       length (row E') = length (row E) + 1
       \<and> numrows E' = u16 (int (length (row E)) + 1)
       \<and> idx_ok E'
       \<and> map chars (row E') = take (nat at) (map chars (row E)) @ [s]
            @ drop (nat at) (map chars (row E))"
    and q: "text_safe E s g \<and> list_all (row_safe E) (drop (nat at) (row E)) \<Longrightarrow> \<exists>E'. res = Inr E'"
    unfolding at by blast
  from q h obtain E' where e: "res = Inr E'" by blast
  show "\<exists>E'. editorInsertRow E at s junk g = Some (Inr E')
               \<and> length (row E') = numrows E + 1 \<and> numrows E' = numrows E + 1
               \<and> idx_ok E'
               \<and> map chars (row E')
                   = take (nat at) (map chars (row E)) @ [s] @ drop (nat at) (map chars (row E))"
    using r e p[OF e] u assms(2) by simp
next
  assume "at < 0 \<or> int (numrows E) < at"
  then show "editorInsertRow E at s junk g = Some (Inr E)"
    by (auto simp: editorInsertRow_def)
qed

theorem editorInsertRow_amended_witness:
  "idx_ok two_rows \<and> numrows two_rows = length (row two_rows)
   \<and> text_safe two_rows '' z'' NUL \<and> list_all (row_safe two_rows) (drop (nat 1) (row two_rows))
   \<and> texts (editorInsertRow two_rows 1 '' z'' (no_junk 2) NUL) = Some (Inr ['' x'', '' z'', ''y''])
   \<and> map_option (map_sum id (\<lambda>E. map idx (row E)))
        (editorInsertRow two_rows 1 '' z'' (no_junk 2) NUL) = Some (Inr [0, 1, 2])
   \<and> editorInsertRow two_rows 3 '' z'' (no_junk 2) NUL = Some (Inr two_rows)"
proof -
  have i: "idx_ok two_rows" by code_simp
  have n: "numrows two_rows = length (row two_rows)" by code_simp
  have n2: "numrows two_rows = 2" by (simp add: two_rows_def)
  have t: "text_safe two_rows '' z'' NUL" by code_simp
  have l: "list_all (row_safe two_rows) (drop (nat 1) (row two_rows))" by code_simp
  have c: "take (nat 1) (map chars (row two_rows)) @ ['' z''] @ drop (nat 1) (map chars (row two_rows))
           = ['' x'', '' z'', ''y'']" by (simp add: two_rows_def)
  note ins = editorInsertRow_amended[OF i n, of 1 "'' z''" NUL "no_junk 2"]
  have h: "0 \<le> (1::int) \<and> 1 \<le> int (numrows two_rows) \<and> numrows two_rows < 65535
          \<and> text_safe two_rows '' z'' NUL
          \<and> list_all (row_safe two_rows) (drop (nat 1) (row two_rows))"
    using t l by (simp add: n2)
  from conjunct1[OF ins, THEN mp, OF h] obtain E' where e: "editorInsertRow two_rows 1 '' z'' (no_junk 2) NUL = Some (Inr E')"
    and len: "length (row E') = numrows two_rows + 1" and io: "idx_ok E'"
    and ch: "map chars (row E') = ['' x'', '' z'', ''y'']"
    unfolding c by (elim exE conjE) (rule that)
  have tx: "texts (editorInsertRow two_rows 1 '' z'' (no_junk 2) NUL)
            = Some (Inr ['' x'', '' z'', ''y''])"
    using e ch by (simp add: texts_def)
  have "map idx (row E') = map int [0..<3]" using io len by (simp add: idx_ok_def n2)
  also have "\<dots> = [0, 1, 2]" by (simp add: upt_rec)
  finally have ix: "map_option (map_sum id (\<lambda>E. map idx (row E)))
        (editorInsertRow two_rows 1 '' z'' (no_junk 2) NUL) = Some (Inr [0, 1, 2])"
    using e by simp
  have "(3::int) < 0 \<or> int (numrows two_rows) < 3" by (simp add: n2)
  from conjunct2[OF editorInsertRow_amended[OF i n, of 3 "'' z''" NUL "no_junk 2"], THEN mp, OF this]
  have o: "editorInsertRow two_rows 3 '' z'' (no_junk 2) NUL = Some (Inr two_rows)" .
  from i n t l tx ix o show ?thesis by (intro conjI)
qed

subsection \<open>editorRowInsertChar\<close>

lemma list_all_drop_nth:
  assumes "list_all P (drop a xs)" and "a \<le> j" and "j < length xs"
  shows "P (xs ! j)"
proof -
  have "j - a < length (drop a xs)" using assms(2,3) by simp
  then have "P (drop a xs ! (j - a))" using assms(1) by (simp add: list_all_length)
  then show ?thesis using assms(2,3) by simp
qed

text \<open>
  C6, as the claim states it, fails: a negative \<open>at\<close> is not clamped to 0 but replaced
  by \<^verbatim>\<open>row->rsize\<close>. In the row \<open>ab\<close> the call with \<open>at = -1\<close> and the character \<open>x\<close>
  gives \<open>abx\<close>; the claim has \<open>xab\<close>. And a row that the highlighter leaves after the
  insertion is not changed: under the C profile an \<open>(\<close> behind the \<open>y\<close> of row 1 of
  \<open>two_rows\<close> stops the function. Nor is a row whose cascade reaches a row that the
  highlighter leaves: a \<open>*\<close> behind the \<open>/\<close> of row 0 of \<open>quote_file\<close>.
\<close>

theorem editorRowInsertChar_negative_counterexample:
  "texts (editorRowInsertChar row_ab 0 (-1) CHR ''x'' NUL) = Some (Inr [''abx''])
   \<and> texts (editorRowInsertChar row_ab 0 (-1) CHR ''x'' NUL) \<noteq> Some (Inr [''xab''])
   \<and> editorRowInsertChar two_rows 1 1 CHR ''('' NUL = Some (Inl OutOfBounds)
   \<and> text_safe quote_file '' x/*'' NUL
   \<and> editorRowInsertChar quote_file 0 3 CHR ''*'' NUL = Some (Inl OutOfBounds)"
  by code_simp

text \<open>
  C6, amended. Take a buffer numbered by offsets and a row \<open>k\<close> of it, with \<open>size\<close>
  characters and a rendering of \<open>rsize \<ge> size\<close> characters. For \<open>0 \<le> at \<le> size\<close> the
  position is \<open>at\<close>; for \<open>at < 0\<close> or \<open>at > rsize\<close>, on a row with \<open>rsize = size\<close>, it is
  \<open>size\<close>. When the new text renders and the highlighter stays within the new row and
  the rows after it, \<^verbatim>\<open>editorRowInsertChar\<close> returns and then: the row is \<open>size + 1\<close>
  characters long, the character sits at that position, the characters before and after
  it are the old ones in their order, the other rows keep their characters, \<^verbatim>\<open>render\<close>
  is the rendering of the new characters, the highlighting of the row is derived anew
  (and that of the whole buffer is up to date if it was before), and \<^verbatim>\<open>dirty\<close> is one
  more (as a 16-bit number).
\<close>

theorem editorRowInsertChar_amended:
  assumes idx: "idx_ok E" and n: "numrows E = length (row E)" and k: "k < length (row E)"
    and sz: "length (chars (row E ! k)) \<le> length (render (row E ! k))"
    and at: "(0 \<le> at \<and> at \<le> int (length (chars (row E ! k))) \<and> p = nat at)
             \<or> ((at < 0 \<or> int (length (render (row E ! k))) < at)
                 \<and> length (render (row E ! k)) = length (chars (row E ! k))
                 \<and> p = length (chars (row E ! k)))"
    and safe: "text_safe E (take p (chars (row E ! k)) @ [c] @ drop p (chars (row E ! k))) g"
    and later: "list_all (row_safe E) (drop (Suc k) (row E))"
  shows "\<exists>E'. editorRowInsertChar E k at c g = Some (Inr E')
       \<and> chars (row E' ! k) = take p (chars (row E ! k)) @ [c] @ drop p (chars (row E ! k))
       \<and> length (chars (row E' ! k)) = length (chars (row E ! k)) + 1
       \<and> chars (row E' ! k) ! p = c
       \<and> map chars (row E') = (map chars (row E))[k := chars (row E' ! k)]
       \<and> render_loop (tab_stop E') (chars (row E' ! k)) [] = Inr (render (row E' ! k))
       \<and> row_ok E' k
       \<and> (hl_consistent E \<longrightarrow> hl_consistent E')
       \<and> dirty E' = u16 (int (dirty E) + 1)"
proof -
  let ?r = "row E ! k"
  let ?cs = "chars ?r"
  let ?at = "(if at < 0 \<or> at > int (length (render ?r)) then int (length (render ?r)) else at)"
  have at': "?at = int p" and p: "p \<le> length ?cs"
    using at sz by auto
  let ?new = "take p ?cs @ [c] @ drop p ?cs"
  let ?r' = "?r\<lparr>chars := ?new\<rparr>"
  have eq: "editorRowInsertChar E k at c g = then_do
      (editorUpdateRow (E\<lparr>row := (row E)[k := ?r']\<rparr>) k g)
      (\<lambda>E'. Some (Inr (E'\<lparr>dirty := u16 (int (dirty E') + 1)\<rparr>)))"
    unfolding editorRowInsertChar_def Let_def at' using k p by simp
  have i': "idx ?r' = idx ?r" and c': "hl_open_comment ?r' = hl_open_comment ?r" by simp_all
  have cr: "chars ?r' = ?new" by simp
  have lat: "\<forall>j. k < j \<and> j < length (row E) \<longrightarrow> row_safe E (row E ! j)"
    using list_all_drop_nth[OF later] by simp
  from edit_row[OF idx n k i' c', of g]
  obtain r0 where r0: "editorUpdateRow (E\<lparr>row := (row E)[k := ?r']\<rparr>) k g = Some r0"
    and q: "\<And>E1. r0 = Inr E1 \<Longrightarrow>
          length (row E1) = length (row E) \<and> dirty E1 = dirty E \<and> tab_stop E1 = tab_stop E
          \<and> map chars (row E1) = (map chars (row E))[k := ?new]
          \<and> render_loop (tab_stop E) ?new [] = Inr (render (row E1 ! k))
          \<and> row_ok E1 k
          \<and> (hl_consistent E \<longrightarrow> hl_consistent E1)"
    and s: "text_safe E ?new g
          \<and> (\<forall>j. k < j \<and> j < length (row E) \<longrightarrow> row_safe E (row E ! j))
          \<Longrightarrow> \<exists>E1. r0 = Inr E1"
    unfolding cr by blast
  from s safe lat obtain E1 where e: "r0 = Inr E1" by blast
  note f = q[OF e]
  let ?E' = "E1\<lparr>dirty := u16 (int (dirty E1) + 1)\<rparr>"
  have res: "editorRowInsertChar E k at c g = Some (Inr ?E')"
    using eq r0 e by (simp add: then_do_def)
  have k1: "k < length (row E1)" using f k by simp
  have "chars (row E1 ! k) = map chars (row E1) ! k" using k1 by simp
  also have "\<dots> = (map chars (row E))[k := ?new] ! k" using f by simp
  also have "\<dots> = ?new" using k by simp
  finally have c1: "chars (row E1 ! k) = ?new" .
  have 1: "chars (row ?E' ! k) = ?new" using c1 by simp
  have 2: "length (chars (row ?E' ! k)) = length ?cs + 1" using c1 p by simp
  have 3: "chars (row ?E' ! k) ! p = c" using c1 p by (simp add: nth_append)
  have 4: "map chars (row ?E') = (map chars (row E))[k := chars (row ?E' ! k)]"
    using f c1 by simp
  have 5: "render_loop (tab_stop ?E') (chars (row ?E' ! k)) [] = Inr (render (row ?E' ! k))"
    using f c1 by simp
  have ro: "row_ok ?E' k = row_ok E1 k"
    by (rule row_ok_cong) (simp_all add: row_seed_def)
  have 6: "row_ok ?E' k" using f ro by simp
  have "hl_consistent ?E' = hl_consistent E1"
  proof -
    have "row_ok ?E' = row_ok E1"
    proof (rule ext)
      fix j show "row_ok ?E' j = row_ok E1 j"
        by (rule row_ok_cong) (simp_all add: row_seed_def)
    qed
    then show ?thesis by (simp add: hl_consistent_def)
  qed
  then have 7: "hl_consistent E \<longrightarrow> hl_consistent ?E'" using f by simp
  have 8: "dirty ?E' = u16 (int (dirty E) + 1)" using f by simp
  from res 1 2 3 4 5 6 7 8 show ?thesis by (intro exI[of _ ?E'] conjI)
qed

theorem editorRowInsertChar_amended_witness:
  "idx_ok two_rows \<and> numrows two_rows = length (row two_rows) \<and> hl_consistent two_rows
   \<and> text_safe two_rows '' x/'' NUL \<and> list_all (row_safe two_rows) (drop (Suc 0) (row two_rows))
   \<and> texts (editorRowInsertChar two_rows 0 2 CHR ''/'' NUL) = Some (Inr ['' x/'', ''y''])
   \<and> map_option (map_sum id hl_consistent) (editorRowInsertChar two_rows 0 2 CHR ''/'' NUL)
       = Some (Inr True)
   \<and> map_option (map_sum id dirty) (editorRowInsertChar two_rows 0 2 CHR ''/'' NUL)
       = Some (Inr 1)
   \<and> texts (editorRowInsertChar row_ab 0 (-1) CHR ''x'' NUL) = Some (Inr [''abx''])
   \<and> texts (editorRowInsertChar row_ab 0 7 CHR ''x'' NUL) = Some (Inr [''abx''])"
proof -
  have i: "idx_ok two_rows" by code_simp
  have n: "numrows two_rows = length (row two_rows)" by code_simp
  have k: "0 < length (row two_rows)" by code_simp
  have h: "hl_consistent two_rows" by code_simp
  have sz: "length (chars (row two_rows ! 0)) \<le> length (render (row two_rows ! 0))" by code_simp
  have at: "(0 \<le> (2::int) \<and> 2 \<le> int (length (chars (row two_rows ! 0))) \<and> (2::nat) = nat 2)
             \<or> (((2::int) < 0 \<or> int (length (render (row two_rows ! 0))) < 2)
                 \<and> length (render (row two_rows ! 0)) = length (chars (row two_rows ! 0))
                 \<and> (2::nat) = length (chars (row two_rows ! 0)))" by code_simp
  have nw: "take 2 (chars (row two_rows ! 0)) @ [CHR ''/''] @ drop 2 (chars (row two_rows ! 0))
            = '' x/''" by code_simp
  have t: "text_safe two_rows '' x/'' NUL" by code_simp
  have t': "text_safe two_rows
              (take 2 (chars (row two_rows ! 0)) @ [CHR ''/''] @ drop 2 (chars (row two_rows ! 0)))
              NUL" using t by (simp only: nw)
  have l: "list_all (row_safe two_rows) (drop (Suc 0) (row two_rows))" by code_simp
  have d: "u16 (int (dirty two_rows) + 1) = 1" by code_simp
  have m: "(map chars (row two_rows))[0 := '' x/''] = ['' x/'', ''y'']" by code_simp
  from editorRowInsertChar_amended[OF i n k sz at t' l]
  obtain E' where e: "editorRowInsertChar two_rows 0 2 CHR ''/'' NUL = Some (Inr E')"
    and c0: "chars (row E' ! 0) = '' x/''"
    and ch: "map chars (row E') = (map chars (row two_rows))[0 := chars (row E' ! 0)]"
    and hc: "hl_consistent two_rows \<longrightarrow> hl_consistent E'"
    and di: "dirty E' = 1"
    unfolding nw d by (elim exE conjE) (rule that)
  have tx: "texts (editorRowInsertChar two_rows 0 2 CHR ''/'' NUL) = Some (Inr ['' x/'', ''y''])"
    using e ch c0 m by (simp add: texts_def)
  have co: "map_option (map_sum id hl_consistent) (editorRowInsertChar two_rows 0 2 CHR ''/'' NUL)
       = Some (Inr True)" using e hc h by simp
  have dd: "map_option (map_sum id dirty) (editorRowInsertChar two_rows 0 2 CHR ''/'' NUL)
       = Some (Inr 1)" using e di by simp
  have t1: "texts (editorRowInsertChar row_ab 0 (-1) CHR ''x'' NUL) = Some (Inr [''abx''])"
    by code_simp
  have t2: "texts (editorRowInsertChar row_ab 0 7 CHR ''x'' NUL) = Some (Inr [''abx''])"
    by code_simp
  from i n h t l tx co dd t1 t2 show ?thesis by (intro conjI)
qed

section \<open>Saving and loading\<close>

text \<open>
  A row loads back as it is when it holds no newline and does not end in a carriage
  return.
\<close>

definition loadable :: "string \<Rightarrow> bool" where
  "loadable cs = (LF \<notin> set cs \<and> (cs = [] \<or> last cs \<noteq> CR))"

lemma getline_row:
  assumes "LF \<notin> set cs"
  shows "getline (cs @ [LF] @ rest) = Some (cs @ [LF], rest)"
proof -
  have d: "dropWhile (\<lambda>c. c \<noteq> LF) (cs @ LF # rest) = LF # rest"
    using assms by (induction cs) auto
  have t: "takeWhile (\<lambda>c. c \<noteq> LF) (cs @ LF # rest) = cs"
    using assms by (induction cs) auto
  show ?thesis by (simp add: getline_def d t)
qed

lemma strip_eol_row:
  assumes "loadable cs"
  shows "strip_eol (cs @ [LF]) = cs"
proof -
  have 1: "strip_eol (cs @ [LF]) = strip_eol cs"
    by (subst strip_eol.simps) simp
  have 2: "strip_eol cs = cs"
  proof (cases "cs = []")
    case True
    then show ?thesis by (subst strip_eol.simps) simp
  next
    case False
    then have "last cs \<in> set cs" by simp
    then have "last cs \<noteq> LF" using assms by (auto simp: loadable_def)
    moreover have "last cs \<noteq> CR" using assms False by (simp add: loadable_def)
    ultimately show ?thesis by (subst strip_eol.simps) simp
  qed
  from 1 2 show ?thesis by simp
qed

text \<open>
  The loop of \<^verbatim>\<open>editorOpen\<close> on the saved text of the rows \<open>rs\<close>, in a buffer of rows
  numbered by their offsets: it returns, and it returns the buffer with the texts of
  \<open>rs\<close> appended when each of them renders and the highlighter stays within it.
\<close>

lemma editorOpen_loop_rows:
  "idx_ok E \<Longrightarrow> numrows E = length (row E) \<Longrightarrow> length (row E) + length rs \<le> 65535
   \<Longrightarrow> list_all (\<lambda>r. loadable (chars r)) rs
   \<Longrightarrow> \<forall>i<length rs. text_safe E (chars (rs ! i)) (g (length (row E) + i))
   \<Longrightarrow> \<exists>E'. editorOpen_loop E (rows_to_string rs) junk g = Some (Inr E')
        \<and> map chars (row E') = map chars (row E) @ map chars rs
        \<and> numrows E' = length (row E') \<and> idx_ok E'"
proof (induction rs arbitrary: E)
  case Nil
  then show ?case by (simp add: editorOpen_loop.simps getline_def)
next
  case (Cons r rs)
  note idx = Cons.prems(1) and n = Cons.prems(2) and safe = Cons.prems(5)
  have ld: "loadable (chars r)" and lds: "list_all (\<lambda>r. loadable (chars r)) rs"
    using Cons.prems(4) by simp_all
  have gl: "getline (rows_to_string (r # rs)) = Some (chars r @ [LF], rows_to_string rs)"
    using ld getline_row[of "chars r" "rows_to_string rs"] by (simp add: loadable_def)
  have se: "strip_eol (chars r @ [LF]) = chars r" using ld by (rule strip_eol_row)
  let ?ins = "editorInsertRow E (int (numrows E)) (chars r) (junk (numrows E)) (g (numrows E))"
  have step: "editorOpen_loop E (rows_to_string (r # rs)) junk g =
      (case ?ins of
         None \<Rightarrow> None
       | Some (Inl f) \<Rightarrow> Some (Inl f)
       | Some (Inr E') \<Rightarrow> editorOpen_loop E' (rows_to_string rs) junk g)"
    by (subst editorOpen_loop.simps) (simp only: gl se option.case prod.case)
  have a: "length (row E) \<le> length (row E)" by simp
  have t0: "text_safe E (chars r) (g (numrows E))" using safe n by auto
  from editorInsertRow_result[OF idx n a, of "chars r" "junk (numrows E)" "g (numrows E)"]
  obtain r0 where r0: "?ins = Some r0"
    and q: "\<And>E1. r0 = Inr E1 \<Longrightarrow>
       length (row E1) = length (row E) + 1
       \<and> numrows E1 = u16 (int (length (row E)) + 1)
       \<and> idx_ok E1
       \<and> map chars (row E1) = take (length (row E)) (map chars (row E)) @ [chars r]
            @ drop (length (row E)) (map chars (row E))
       \<and> tab_stop E1 = tab_stop E \<and> syntax_hl E1 = syntax_hl E"
    and s: "text_safe E (chars r) (g (numrows E))
            \<and> list_all (row_safe E) (drop (length (row E)) (row E)) \<Longrightarrow> \<exists>E1. r0 = Inr E1"
    using n by auto
  from s t0 obtain E1 where e: "r0 = Inr E1" by auto
  note f = q[OF e]
  have l1: "length (row E1) = length (row E) + 1" using f by simp
  have "length (row E) + 1 < 65536" using Cons.prems(3) by simp
  then have "u16 (int (length (row E) + 1)) = length (row E) + 1" by (rule u16_small)
  then have n1: "numrows E1 = length (row E1)" using f by (simp add: add.commute)
  have idx1: "idx_ok E1" using f by simp
  have c1: "map chars (row E1) = map chars (row E) @ [chars r]" using f by simp
  have b1: "length (row E1) + length rs \<le> 65535" using Cons.prems(3) l1 by simp
  have safe1: "\<forall>i<length rs. text_safe E1 (chars (rs ! i)) (g (length (row E1) + i))"
  proof (intro allI impI)
    fix i assume i: "i < length rs"
    then have "text_safe E (chars ((r # rs) ! Suc i)) (g (length (row E) + Suc i))"
      using safe by auto
    moreover have "text_safe E1 s c = text_safe E s c" for s c
      by (rule text_safe_cong) (use f in simp_all)
    ultimately show "text_safe E1 (chars (rs ! i)) (g (length (row E1) + i))"
      using l1 by simp
  qed
  from Cons.IH[OF idx1 n1 b1 lds safe1]
  obtain E' where res: "editorOpen_loop E1 (rows_to_string rs) junk g = Some (Inr E')"
    and p: "map chars (row E') = map chars (row E1) @ map chars rs"
      "numrows E' = length (row E')" "idx_ok E'"
    by blast
  have "editorOpen_loop E (rows_to_string (r # rs)) junk g = Some (Inr E')"
    using step r0 e res by simp
  moreover have "map chars (row E') = map chars (row E) @ map chars (r # rs)"
    using p c1 by simp
  ultimately show ?case using p by blast
qed

lemma rows_to_string_concat: "rows_to_string rs = concat (map (\<lambda>r. chars r @ [LF]) rs)"
  by (induction rs) simp_all

text \<open>A buffer of the one row \<open>a\<close> followed by a carriage return, without a syntax.\<close>

definition row_a_cr :: editorConfig where
  "row_a_cr =
     \<lparr>tab_stop = 4,
      row = [\<lparr>idx = 0, chars = [CHR ''a'', CR], render = [CHR ''a'', CR], render_pre = NUL,
               hl = [HL_NORMAL, HL_NORMAL], hl_open_comment = 0, chars_end = NUL\<rparr>],
      syntax_hl = None, cx = 0, cy = 0, rowoff = 0, numrows = 1, dirty = 0\<rparr>"

text \<open>
  C4, as the claim states it, fails: a row that ends in a carriage return is saved as
  \<open>a\<close>, CR, LF and loads back as \<open>a\<close>, because loading strips every trailing carriage
  return; a row with a newline inside loads back as two rows. And a row that the
  highlighter leaves is not loaded: under the C profile the saved text of the row
  \<open>f(x)\<close> stops the function.
\<close>

theorem save_load_counterexample:
  "editorRowsToString row_a_cr = Inr [CHR ''a'', CR, LF]
   \<and> texts (editorOpen (initEditor None) [CHR ''a'', CR, LF] no_junk no_byte) = Some (Inr [''a''])
   \<and> map chars (row row_a_cr) \<noteq> [''a'']
   \<and> texts (editorOpen (initEditor None) (''a'' @ [LF] @ ''b'' @ [LF]) no_junk no_byte)
       = Some (Inr [''a'', ''b''])
   \<and> editorOpen (initEditor (Some HLDB_c)) (''f(x)'' @ [LF]) no_junk no_byte
       = Some (Inl OutOfBounds)"
  by code_simp

text \<open>
  C4, amended. Take a buffer of at most 65535 rows, none of which holds a newline or
  ends in a carriage return. \<^verbatim>\<open>editorRowsToString\<close> gives the characters of every row,
  each followed by a newline, the last row too. When each row renders and the
  highlighter stays within it, \<^verbatim>\<open>editorOpen\<close> on that text, from an empty buffer,
  returns the same sequence of row contents, as many rows, and \<^verbatim>\<open>dirty = 0\<close>.
\<close>

theorem save_load_roundtrip:
  assumes "numrows E = length (row E)" and "length (row E) \<le> 65535"
    and "list_all (\<lambda>r. loadable (chars r)) (row E)"
    and "row E0 = []" and "numrows E0 = 0"
    and "list_all (\<lambda>i. text_safe E0 (chars (row E ! i)) (g i)) [0..<length (row E)]"
  shows "\<exists>s E'. editorRowsToString E = Inr s
     \<and> s = concat (map (\<lambda>r. chars r @ [LF]) (row E))
     \<and> editorOpen E0 s junk g = Some (Inr E')
     \<and> map chars (row E') = map chars (row E) \<and> numrows E' = numrows E \<and> dirty E' = 0"
proof -
  have s: "editorRowsToString E = Inr (rows_to_string (row E))"
    using assms(1) by (simp add: editorRowsToString_def)
  have idx0: "idx_ok E0" using assms(4) by (simp add: idx_ok_def)
  have n0: "numrows E0 = length (row E0)" using assms(4,5) by simp
  have b0: "length (row E0) + length (row E) \<le> 65535" using assms(2,4) by simp
  have safe: "\<forall>i<length (row E). text_safe E0 (chars (row E ! i)) (g (length (row E0) + i))"
    using assms(4,6) by (simp add: list_all_iff)
  from editorOpen_loop_rows[OF idx0 n0 b0 assms(3) safe, of junk]
  obtain E1 where r0: "editorOpen_loop E0 (rows_to_string (row E)) junk g = Some (Inr E1)"
    and c: "map chars (row E1) = map chars (row E0) @ map chars (row E)"
    and n1: "numrows E1 = length (row E1)"
    by blast
  have c': "map chars (row E1) = map chars (row E)" using c assms(4) by simp
  have "length (map chars (row E1)) = length (map chars (row E))" by (simp only: c')
  then have "length (row E1) = length (row E)" by (simp only: length_map)
  then have nn: "numrows E1 = numrows E" using n1 assms(1) by simp
  let ?E' = "E1\<lparr>dirty := 0\<rparr>"
  have o: "editorOpen E0 (rows_to_string (row E)) junk g = Some (Inr ?E')"
    using r0 by (simp add: editorOpen_def then_do_def)
  have 1: "map chars (row ?E') = map chars (row E)" using c' by simp
  have 2: "numrows ?E' = numrows E" using nn by simp
  have 3: "dirty ?E' = 0" by simp
  have 4: "rows_to_string (row E) = concat (map (\<lambda>r. chars r @ [LF]) (row E))"
    by (rule rows_to_string_concat)
  from s 4 o 1 2 3 show ?thesis by (intro exI[of _ "rows_to_string (row E)"] exI[of _ ?E'] conjI)
qed

theorem save_load_roundtrip_witness:
  "numrows two_rows = length (row two_rows)
   \<and> list_all (\<lambda>r. loadable (chars r)) (row two_rows)
   \<and> list_all (\<lambda>i. text_safe (initEditor (Some HLDB_c)) (chars (row two_rows ! i)) (no_byte i))
        [0..<length (row two_rows)]
   \<and> editorRowsToString two_rows = Inr ('' x'' @ [LF] @ ''y'' @ [LF])
   \<and> texts (editorOpen (initEditor (Some HLDB_c)) ('' x'' @ [LF] @ ''y'' @ [LF]) no_junk no_byte)
       = Some (Inr ['' x'', ''y''])"
proof -
  have n: "numrows two_rows = length (row two_rows)" by code_simp
  have b: "length (row two_rows) \<le> 65535" by (simp add: two_rows_def)
  have l: "list_all (\<lambda>r. loadable (chars r)) (row two_rows)" by code_simp
  have r: "row (initEditor (Some HLDB_c)) = []" by code_simp
  have z: "numrows (initEditor (Some HLDB_c)) = 0" by code_simp
  have t: "list_all (\<lambda>i. text_safe (initEditor (Some HLDB_c)) (chars (row two_rows ! i)) (no_byte i))
        [0..<length (row two_rows)]" by code_simp
  have c: "concat (map (\<lambda>r. chars r @ [LF]) (row two_rows)) = '' x'' @ [LF] @ ''y'' @ [LF]"
    by code_simp
  have m: "map chars (row two_rows) = ['' x'', ''y'']" by code_simp
  from save_load_roundtrip[OF n b l r z t, of no_junk]
  obtain E' where s: "editorRowsToString two_rows = Inr ('' x'' @ [LF] @ ''y'' @ [LF])"
    and o: "editorOpen (initEditor (Some HLDB_c)) ('' x'' @ [LF] @ ''y'' @ [LF]) no_junk no_byte
            = Some (Inr E')"
    and ch: "map chars (row E') = ['' x'', ''y'']"
    unfolding c m by (elim exE conjE) (rule that, simp_all)
  have tx: "texts (editorOpen (initEditor (Some HLDB_c)) ('' x'' @ [LF] @ ''y'' @ [LF])
               no_junk no_byte) = Some (Inr ['' x'', ''y''])"
    using o ch by (simp add: texts_def)
  from n l t s tx show ?thesis by (intro conjI)
qed

end
